theory Spec2Isabelle
  imports Complex_Main "HOL-Library.Char_ord" "HOL-Library.List_Lexorder"
    "HOL-Library.Multiset"
begin

section \<open>JavaScript numbers\<close>

text \<open>
  The component computes with JavaScript Numbers (IEEE 754 binary64). A Number is
  \<open>NaN\<close>, an infinity, or a finite value, kept as the rational it denotes. Every
  arithmetic operation computes the exact rational result and rounds it with \<open>fl\<close>
  (round to nearest, ties to even, 53 significant bits, gradual underflow below
  \<open>2^-1022\<close>, overflow to an infinity from \<open>2^1024\<close> on). The sign of zero is not
  kept: no operation of \<open>src/components/EquityCurve/index.js\<close> tells \<open>-0\<close> from
  \<open>+0\<close> (\<open>||\<close>, \<open>>\<close>, \<open>Number.isFinite\<close>, \<open>+\<close> from a \<open>+0\<close> accumulator and
  \<open>new Date\<close> treat both alike).
\<close>

datatype jsnum = NaN | PInf | NInf | Fin rat

function log2floor :: "int \<Rightarrow> int" where
  "log2floor n = (if n < 2 then 0 else log2floor (n div 2) + 1)"
  by pat_completeness auto
termination
  by (relation "measure nat") auto

declare log2floor.simps [simp del]

definition pow2 :: "int \<Rightarrow> rat" where
  "pow2 e = (if 0 \<le> e then 2 ^ nat e else 1 / 2 ^ nat (- e))"

text \<open>For \<open>x \<noteq> 0\<close>, \<open>exponent x\<close> is the \<open>e\<close> with \<open>2^e \<le> |x| < 2^(e+1)\<close>.\<close>

definition exponent :: "rat \<Rightarrow> int" where
  "exponent x =
     (let (p, q) = quotient_of \<bar>x\<bar>;
          d = log2floor p - log2floor q
      in if pow2 d \<le> \<bar>x\<bar> then d else d - 1)"

definition roundTiesToEven :: "rat \<Rightarrow> int" where
  "roundTiesToEven y =
     (let f = \<lfloor>y\<rfloor>; r = y - of_int f
      in if r < 1 / 2 then f else if 1 / 2 < r then f + 1
         else if even f then f else f + 1)"

definition fl :: "rat \<Rightarrow> jsnum" where
  "fl x =
     (if x = 0 then Fin 0
      else let q = pow2 (max (exponent x) (- 1022) - 52);
               r = of_int (roundTiesToEven (x / q)) * q
           in if pow2 1024 \<le> r then PInf
              else if r \<le> - pow2 1024 then NInf
              else Fin r)"

text \<open>\<open>a + b\<close>\<close>

fun js_add :: "jsnum \<Rightarrow> jsnum \<Rightarrow> jsnum" where
  "js_add NaN _ = NaN"
| "js_add _ NaN = NaN"
| "js_add PInf NInf = NaN"
| "js_add NInf PInf = NaN"
| "js_add PInf _ = PInf"
| "js_add _ PInf = PInf"
| "js_add NInf _ = NInf"
| "js_add _ NInf = NInf"
| "js_add (Fin a) (Fin b) = fl (a + b)"

text \<open>\<open>a * b\<close>\<close>

fun js_mul :: "jsnum \<Rightarrow> jsnum \<Rightarrow> jsnum" where
  "js_mul (Fin a) (Fin b) = fl (a * b)"
| "js_mul NaN _ = NaN"
| "js_mul _ NaN = NaN"
| "js_mul (Fin a) PInf = (if a = 0 then NaN else if 0 < a then PInf else NInf)"
| "js_mul (Fin a) NInf = (if a = 0 then NaN else if 0 < a then NInf else PInf)"
| "js_mul PInf (Fin b) = (if b = 0 then NaN else if 0 < b then PInf else NInf)"
| "js_mul NInf (Fin b) = (if b = 0 then NaN else if 0 < b then NInf else PInf)"
| "js_mul PInf PInf = PInf"
| "js_mul NInf NInf = PInf"
| "js_mul PInf NInf = NInf"
| "js_mul NInf PInf = NInf"

text \<open>
  \<open>a / b\<close>. The program only divides by the literal \<open>1000\<close>; a zero divisor is
  read as \<open>+0\<close>.
\<close>

fun js_div :: "jsnum \<Rightarrow> jsnum \<Rightarrow> jsnum" where
  "js_div (Fin a) (Fin b) =
     (if b = 0 then (if a = 0 then NaN else if 0 < a then PInf else NInf)
      else fl (a / b))"
| "js_div NaN _ = NaN"
| "js_div _ NaN = NaN"
| "js_div (Fin a) PInf = Fin 0"
| "js_div (Fin a) NInf = Fin 0"
| "js_div PInf (Fin b) = (if 0 \<le> b then PInf else NInf)"
| "js_div NInf (Fin b) = (if 0 \<le> b then NInf else PInf)"
| "js_div PInf PInf = NaN"
| "js_div NInf NInf = NaN"
| "js_div PInf NInf = NaN"
| "js_div NInf PInf = NaN"

text \<open>\<open>a > b\<close>: false as soon as one side is \<open>NaN\<close>.\<close>

fun js_gt :: "jsnum \<Rightarrow> jsnum \<Rightarrow> bool" where
  "js_gt (Fin a) (Fin b) = (a > b)"
| "js_gt NaN _ = False"
| "js_gt _ NaN = False"
| "js_gt PInf PInf = False"
| "js_gt PInf _ = True"
| "js_gt NInf _ = False"
| "js_gt (Fin a) NInf = True"
| "js_gt (Fin a) PInf = False"

text \<open>\<open>Math.floor\<close>: the floor of a binary64 value is a binary64 value.\<close>

fun js_floor :: "jsnum \<Rightarrow> jsnum" where
  "js_floor (Fin a) = Fin (of_int \<lfloor>a\<rfloor>)"
| "js_floor n = n"

text \<open>\<open>Number.isFinite\<close> on a Number.\<close>

fun isFinite :: "jsnum \<Rightarrow> bool" where
  "isFinite (Fin a) = True"
| "isFinite _ = False"

text \<open>An integral finite Number.\<close>

fun isInteger :: "jsnum \<Rightarrow> bool" where
  "isInteger (Fin a) = (of_int \<lfloor>a\<rfloor> = a)"
| "isInteger _ = False"

section \<open>Strings to Numbers\<close>

text \<open>
  A JavaScript string is a sequence of UTF-16 code units; the model keeps the code
  units below 256, one per \<open>char\<close>.

  \<open>StringToNumber\<close> follows the \<open>StringNumericLiteral\<close> grammar of ECMAScript:
  surrounding white space is dropped, the empty string is \<open>0\<close>, then either a
  \<open>0x\<close>, \<open>0o\<close> or \<open>0b\<close> integer, or an optionally signed \<open>Infinity\<close> or decimal
  literal with optional fraction and exponent; anything else is \<open>NaN\<close>. The
  mathematical value is rounded to the nearest Number.
\<close>

definition isDigit :: "char \<Rightarrow> bool" where
  "isDigit c = (c \<in> set ''0123456789'')"

definition digitVal :: "char \<Rightarrow> int" where
  "digitVal c =
     (if isDigit c then of_char c - 48
      else if c \<in> set ''abcdef'' then of_char c - 87
      else of_char c - 55)"

definition digitsVal :: "int \<Rightarrow> string \<Rightarrow> int" where
  "digitsVal base s = foldl (\<lambda>a c. base * a + digitVal c) 0 s"

definition isStrWhiteSpace :: "char \<Rightarrow> bool" where
  "isStrWhiteSpace c = ((of_char c :: nat) \<in> {9, 10, 11, 12, 13, 32, 160})"

definition trim :: "string \<Rightarrow> string" where
  "trim s = rev (dropWhile isStrWhiteSpace (rev (dropWhile isStrWhiteSpace s)))"

definition pow10 :: "int \<Rightarrow> rat" where
  "pow10 e = (if 0 \<le> e then 10 ^ nat e else 1 / 10 ^ nat (- e))"

text \<open>\<open>ExponentPart\<close>, or nothing: the exponent, or \<open>None\<close> when the text is neither.\<close>

definition exponentPart :: "string \<Rightarrow> int option" where
  "exponentPart s =
     (case s of
        [] \<Rightarrow> Some 0
      | c # r \<Rightarrow>
          if c \<noteq> CHR ''e'' \<and> c \<noteq> CHR ''E'' then None
          else let (neg, ds) =
                 (case r of
                    [] \<Rightarrow> (False, [])
                  | d # r' \<Rightarrow>
                      if d = CHR ''-'' then (True, r')
                      else if d = CHR ''+'' then (False, r')
                      else (False, r))
               in if ds = [] \<or> \<not> list_all isDigit ds then None
                  else Some (if neg then - digitsVal 10 ds else digitsVal 10 ds))"

text \<open>\<open>StrUnsignedDecimalLiteral\<close> other than \<open>Infinity\<close>: its mathematical value.\<close>

definition unsignedDecimal :: "string \<Rightarrow> rat option" where
  "unsignedDecimal u =
     (let ip = takeWhile isDigit u;
          r1 = dropWhile isDigit u;
          dot = (r1 \<noteq> [] \<and> hd r1 = CHR ''.'');
          fp = (if dot then takeWhile isDigit (tl r1) else []);
          r2 = (if dot then dropWhile isDigit (tl r1) else r1)
      in if ip = [] \<and> fp = [] then None
         else case exponentPart r2 of
                None \<Rightarrow> None
              | Some e \<Rightarrow>
                  Some (of_int (digitsVal 10 (ip @ fp)) * pow10 (e - int (length fp))))"

definition nonDecimal :: "string \<Rightarrow> rat option" where
  "nonDecimal t =
     (case t of
        z # x # ds \<Rightarrow>
          if z \<noteq> CHR ''0'' \<or> ds = [] then None
          else if x \<in> set ''xX'' \<and> list_all (\<lambda>c. c \<in> set ''0123456789abcdefABCDEF'') ds
            then Some (of_int (digitsVal 16 ds))
          else if x \<in> set ''oO'' \<and> list_all (\<lambda>c. c \<in> set ''01234567'') ds
            then Some (of_int (digitsVal 8 ds))
          else if x \<in> set ''bB'' \<and> list_all (\<lambda>c. c \<in> set ''01'') ds
            then Some (of_int (digitsVal 2 ds))
          else None
      | _ \<Rightarrow> None)"

definition StringToNumber :: "string \<Rightarrow> jsnum" where
  "StringToNumber s =
     (let t = trim s
      in if t = [] then Fin 0
         else case nonDecimal t of
                Some v \<Rightarrow> fl v
              | None \<Rightarrow>
                  let neg = (hd t = CHR ''-'');
                      u = (if hd t = CHR ''-'' \<or> hd t = CHR ''+'' then tl t else t)
                  in if u = ''Infinity'' then (if neg then NInf else PInf)
                     else case unsignedDecimal u of
                            None \<Rightarrow> NaN
                          | Some v \<Rightarrow> fl (if neg then - v else v))"

section \<open>Values, exceptions and the host\<close>

text \<open>
  The values a response body can hold once \<open>res.json()\<close> has parsed it, and
  \<open>undefined\<close>, which reading a missing property gives. An object is the list of
  its own properties.
\<close>

datatype jsval =
    Undefined
  | Null
  | Bool bool
  | Num jsnum
  | Str string
  | Arr "jsval list"
  | Obj "(string \<times> jsval) list"

text \<open>
  What is thrown: the engine's \<open>TypeError\<close> and \<open>RangeError\<close>, and a failure that
  carries its message (the \<open>Error\<close> the component throws on a bad status, a rejected
  \<open>fetch\<close>, a rejected \<open>res.json()\<close>).
\<close>

datatype jserror = TypeError | RangeError | Failure string

text \<open>
  What the engine supplies and ECMAScript leaves to it or this development does not
  spell out: \<open>Date.parse\<close> (\<open>NaN\<close> for a string it does not read as a date),
  \<open>Number::toString\<close>, and the message texts of engine errors.
\<close>

record host =
  dateParse :: "string \<Rightarrow> jsnum"
  numberToString :: "jsnum \<Rightarrow> string"
  typeErrorMessage :: string
  rangeErrorMessage :: string

fun message :: "host \<Rightarrow> jserror \<Rightarrow> string" where
  "message h TypeError = typeErrorMessage h"
| "message h RangeError = rangeErrorMessage h"
| "message h (Failure m) = m"

text \<open>\<open>v == null\<close>\<close>

definition isNullish :: "jsval \<Rightarrow> bool" where
  "isNullish v = (v = Undefined \<or> v = Null)"

fun joinParts :: "(jserror + string) list \<Rightarrow> jserror + string" where
  "joinParts [] = Inr []"
| "joinParts [p] = p"
| "joinParts (p # ps) =
     (case p of
        Inl e \<Rightarrow> Inl e
      | Inr s \<Rightarrow> (case joinParts ps of Inl e \<Rightarrow> Inl e | Inr r \<Rightarrow> Inr (s @ '','' @ r)))"

text \<open>
  \<open>String(v)\<close>. An array joins its elements with commas, \<open>null\<close> and \<open>undefined\<close>
  elements as empty strings. A parsed object has no callable property of its own, so
  an own \<open>toString\<close> property hides \<open>Object.prototype.toString\<close> and the conversion
  throws a \<open>TypeError\<close>; otherwise the result is \<open>[object Object]\<close>.
\<close>

fun ToString :: "host \<Rightarrow> jsval \<Rightarrow> jserror + string" where
  "ToString h Undefined = Inr ''undefined''"
| "ToString h Null = Inr ''null''"
| "ToString h (Bool b) = Inr (if b then ''true'' else ''false'')"
| "ToString h (Num n) = Inr (numberToString h n)"
| "ToString h (Str s) = Inr s"
| "ToString h (Arr xs) =
     joinParts (map (\<lambda>x. if x = Undefined \<or> x = Null then Inr [] else ToString h x) xs)"
| "ToString h (Obj fs) =
     (if ''toString'' \<in> set (map fst fs) then Inl TypeError else Inr ''[object Object]'')"

text \<open>\<open>Number(v)\<close>: an array or object is converted through its string.\<close>

fun ToNumber :: "host \<Rightarrow> jsval \<Rightarrow> jserror + jsnum" where
  "ToNumber h Undefined = Inr NaN"
| "ToNumber h Null = Inr (Fin 0)"
| "ToNumber h (Bool b) = Inr (Fin (if b then 1 else 0))"
| "ToNumber h (Num n) = Inr n"
| "ToNumber h (Str s) = Inr (StringToNumber s)"
| "ToNumber h v =
     (case ToString h v of Inl e \<Rightarrow> Inl e | Inr s \<Rightarrow> Inr (StringToNumber s))"

text \<open>
  \<open>v.k\<close> for the property names the component reads (\<open>trades\<close> and the trade
  fields), none of which a prototype defines: a \<open>TypeError\<close> on \<open>null\<close> and
  \<open>undefined\<close>, the own property of an object, \<open>undefined\<close> otherwise.
\<close>

fun getProp :: "jsval \<Rightarrow> string \<Rightarrow> jserror + jsval" where
  "getProp Undefined k = Inl TypeError"
| "getProp Null k = Inl TypeError"
| "getProp (Obj fs) k = Inr (case map_of fs k of None \<Rightarrow> Undefined | Some v \<Rightarrow> v)"
| "getProp v k = Inr Undefined"

section \<open>Timestamp normalizer and field resolvers\<close>

text \<open>\<open>/^\d{13}$/.test(s)\<close> and \<open>/^\d{10}$/.test(s)\<close>\<close>

definition isDigits :: "nat \<Rightarrow> string \<Rightarrow> bool" where
  "isDigits n s = (length s = n \<and> list_all isDigit s)"

text \<open>
  \<open>new Date(x)\<close> for a Number \<open>x\<close>: the time value in milliseconds, truncated
  towards zero, or \<open>None\<close> (an invalid date) when \<open>x\<close> is not finite or beyond
  \<open>8.64e15\<close> in magnitude.
\<close>

fun newDate :: "jsnum \<Rightarrow> int option" where
  "newDate (Fin x) =
     (if 8640000000000000 < \<bar>x\<bar> then None
      else Some (if 0 \<le> x then \<lfloor>x\<rfloor> else - \<lfloor>- x\<rfloor>))"
| "newDate n = None"

text \<open>\<open>d.getTime()\<close>\<close>

fun getTime :: "int option \<Rightarrow> jsnum" where
  "getTime None = NaN"
| "getTime (Some tv) = Fin (of_int tv)"

text \<open>
  \<open>toSec(v)\<close>; \<open>None\<close> is \<open>undefined\<close>. \<open>new Date(s)\<close> on a string is
  \<open>Date.parse\<close> followed by the same clipping as for a Number.
\<close>

definition toSec :: "host \<Rightarrow> jsval \<Rightarrow> jserror + jsnum option" where
  "toSec h v =
     (if isNullish v then Inr None
      else case v of
        Num n \<Rightarrow>
          if js_gt n (Fin 2000000000000)
          then Inr (Some (js_floor (js_div n (Fin 1000))))
          else Inr (Some n)
      | _ \<Rightarrow>
          (case ToString h v of
             Inl e \<Rightarrow> Inl e
           | Inr s \<Rightarrow>
               if isDigits 13 s
               then Inr (Some (js_floor (js_div (StringToNumber s) (Fin 1000))))
               else if isDigits 10 s then Inr (Some (StringToNumber s))
               else let t = getTime (newDate (dateParse h s))
                    in Inr (if isFinite t then Some (js_floor (js_div t (Fin 1000)))
                            else None)))"

text \<open>\<open>toSec(t.k)\<close>\<close>

definition toSecOf :: "host \<Rightarrow> jsval \<Rightarrow> string \<Rightarrow> jserror + jsnum option" where
  "toSecOf h t k = (case getProp t k of Inl e \<Rightarrow> Inl e | Inr v \<Rightarrow> toSec h v)"

text \<open>\<open>a ?? b\<close>: \<open>b\<close> is evaluated only when \<open>a\<close> is \<open>undefined\<close>.\<close>

fun nullish :: "jserror + 'a option \<Rightarrow> jserror + 'a option \<Rightarrow> jserror + 'a option" where
  "nullish (Inl e) b = Inl e"
| "nullish (Inr (Some x)) b = Inr (Some x)"
| "nullish (Inr None) b = b"

definition getCloseSec :: "host \<Rightarrow> jsval \<Rightarrow> jserror + jsnum option" where
  "getCloseSec h t =
     nullish (nullish (nullish (nullish
       (toSecOf h t ''close_timestamp'')
       (toSecOf h t ''exit''))
       (toSecOf h t ''close_time''))
       (toSecOf h t ''timestamp''))
       (toSecOf h t ''entry_timestamp'')"

text \<open>
  One of the four blocks of \<open>getPL\<close>: the field \<open>k\<close> of \<open>t\<close> if it is a number;
  its coercion if it is present and the coercion is finite; else the blocks that
  follow.
\<close>

definition plField ::
  "host \<Rightarrow> jsval \<Rightarrow> string \<Rightarrow> jserror + jsnum option \<Rightarrow> jserror + jsnum option" where
  "plField h t k rest =
     (case getProp t k of
        Inl e \<Rightarrow> Inl e
      | Inr (Num n) \<Rightarrow> Inr (Some n)
      | Inr v \<Rightarrow>
          if \<not> isNullish v
          then (case ToNumber h v of
                  Inl e \<Rightarrow> Inl e
                | Inr n \<Rightarrow> if isFinite n then Inr (Some n) else rest)
          else rest)"

definition getPL :: "host \<Rightarrow> jsval \<Rightarrow> jserror + jsnum option" where
  "getPL h t =
     plField h t ''real_profit_loss''
       (plField h t ''real_net_profit_loss''
         (plField h t ''real_net_pnl''
           (plField h t ''real_pnl'' (Inr None))))"

section \<open>Dates\<close>

text \<open>Decimal digits of a non-negative integer, and the same padded with zeros.\<close>

function showInt :: "int \<Rightarrow> string" where
  "showInt n =
     (if n < 10 then [''0123456789'' ! nat n]
      else showInt (n div 10) @ [''0123456789'' ! nat (n mod 10)])"
  by pat_completeness auto
termination
  by (relation "measure nat") auto

declare showInt.simps [simp del]

definition pad :: "nat \<Rightarrow> int \<Rightarrow> string" where
  "pad w n = replicate (w - length (showInt n)) CHR ''0'' @ showInt n"

text \<open>
  Year, month and day of month of a day number (days since 1970-01-01) in the
  proleptic Gregorian calendar, by whole 400-year eras counted from 0000-03-01.
\<close>

definition civilFromDays :: "int \<Rightarrow> int \<times> int \<times> int" where
  "civilFromDays n =
     (let z = n + 719468;
          era = z div 146097;
          doe = z mod 146097;
          yoe = (doe - doe div 1460 + doe div 36524 - doe div 146096) div 365;
          doy = doe - (365 * yoe + yoe div 4 - yoe div 100);
          mp = (5 * doy + 2) div 153;
          d = doy - (153 * mp + 2) div 5 + 1;
          m = (if mp < 10 then mp + 3 else mp - 9);
          y = yoe + era * 400 + (if m \<le> 2 then 1 else 0)
      in (y, m, d))"

text \<open>
  \<open>d.toISOString()\<close>: a \<open>RangeError\<close> on an invalid date; four year digits for
  the years 0 to 9999, a sign and six digits otherwise.
\<close>

fun toISOString :: "int option \<Rightarrow> jserror + string" where
  "toISOString None = Inl RangeError"
| "toISOString (Some tv) =
     (let (y, m, d) = civilFromDays (tv div 86400000);
          ms = tv mod 86400000;
          year = (if 0 \<le> y \<and> y \<le> 9999 then pad 4 y
                  else (if y < 0 then ''-'' else ''+'') @ pad 6 \<bar>y\<bar>)
      in Inr (year @ ''-'' @ pad 2 m @ ''-'' @ pad 2 d @ ''T''
              @ pad 2 (ms div 3600000) @ '':'' @ pad 2 (ms div 60000 mod 60) @ '':''
              @ pad 2 (ms div 1000 mod 60) @ ''.'' @ pad 3 (ms mod 1000) @ ''Z''))"

section \<open>Daily aggregation\<close>

text \<open>
  The object \<open>dailyPL\<close>: its own properties in insertion order. Assigning to an
  existing key keeps its place, a new key goes last.
\<close>

type_synonym dailyPL = "(string \<times> jsnum) list"

fun setKey :: "dailyPL \<Rightarrow> string \<Rightarrow> jsnum \<Rightarrow> dailyPL" where
  "setKey [] k v = [(k, v)]"
| "setKey ((k', v') # m) k v =
     (if k' = k then (k, v) # m else (k', v') # setKey m k v)"

text \<open>\<open>dailyPL[day] || 0\<close>: \<open>undefined\<close>, \<open>NaN\<close> and \<open>0\<close> are falsy.\<close>

definition orZero :: "jsnum option \<Rightarrow> jsnum" where
  "orZero x =
     (case x of None \<Rightarrow> Fin 0
      | Some n \<Rightarrow> if n = NaN \<or> n = Fin 0 then Fin 0 else n)"

text \<open>The body of \<open>for (const t of trades)\<close>.\<close>

definition tradeStep :: "host \<Rightarrow> dailyPL \<Rightarrow> jsval \<Rightarrow> jserror + dailyPL" where
  "tradeStep h m t =
     (case getCloseSec h t of
        Inl e \<Rightarrow> Inl e
      | Inr None \<Rightarrow> Inr m
      | Inr (Some ctSec) \<Rightarrow>
          if \<not> isFinite ctSec then Inr m
          else (case getPL h t of
                  Inl e \<Rightarrow> Inl e
                | Inr None \<Rightarrow> Inr m
                | Inr (Some pl) \<Rightarrow>
                    if \<not> isFinite pl then Inr m
                    else (case toISOString (newDate (js_mul ctSec (Fin 1000))) of
                            Inl e \<Rightarrow> Inl e
                          | Inr isoStr \<Rightarrow>
                              let day = take 10 isoStr
                              in Inr (setKey m day (js_add (orZero (map_of m day)) pl)))))"

fun tradeLoop :: "host \<Rightarrow> dailyPL \<Rightarrow> jsval list \<Rightarrow> jserror + dailyPL" where
  "tradeLoop h m [] = Inr m"
| "tradeLoop h m (t # ts) =
     (case tradeStep h m t of Inl e \<Rightarrow> Inl e | Inr m' \<Rightarrow> tradeLoop h m' ts)"

text \<open>The Daily Aggregator: the loop from an empty \<open>dailyPL\<close>.\<close>

definition aggregate :: "host \<Rightarrow> jsval list \<Rightarrow> jserror + dailyPL" where
  "aggregate h ts = tradeLoop h [] ts"

section \<open>Equity curve\<close>

record point =
  date :: string
  equity :: jsnum

text \<open>\<open>equity += dailyPL[day]\<close>; a missing key would read \<open>undefined\<close>, hence \<open>NaN\<close>.\<close>

fun curveLoop :: "dailyPL \<Rightarrow> jsnum \<Rightarrow> string list \<Rightarrow> point list" where
  "curveLoop m eq [] = []"
| "curveLoop m eq (day # days) =
     (let eq' = js_add eq (case map_of m day of None \<Rightarrow> NaN | Some v \<Rightarrow> v)
      in \<lparr>date = day, equity = eq'\<rparr> # curveLoop m eq' days)"

text \<open>\<open>Object.keys(dailyPL).sort()\<close> orders the keys by their code units.\<close>

definition buildCurve :: "dailyPL \<Rightarrow> jsnum \<Rightarrow> point list" where
  "buildCurve m startingBalance = curveLoop m startingBalance (sort (map fst m))"

section \<open>The fetch cycle\<close>

text \<open>
  A response as the component sees it: \<open>res.ok\<close>, \<open>res.status\<close>,
  \<open>res.statusText\<close>, and what \<open>res.json()\<close> settles to.
\<close>

record response =
  ok :: bool
  status :: int
  statusText :: string
  json :: "jserror + jsval"

text \<open>
  The callback of \<open>symbols.map\<close> once \<open>fetch\<close> has settled (\<open>Inl\<close>: rejected). It
  runs without interruption from the last \<open>await\<close> on, so it is a function of
  \<open>dailyPL\<close> as it stands then.
\<close>

definition symbolTask :: "host \<Rightarrow> dailyPL \<Rightarrow> jserror + response \<Rightarrow> jserror + dailyPL" where
  "symbolTask h m out =
     (case out of
        Inl e \<Rightarrow> Inl e
      | Inr res \<Rightarrow>
          if \<not> ok res then Inl (Failure (showInt (status res) @ '' '' @ statusText res))
          else (case json res of
                  Inl e \<Rightarrow> Inl e
                | Inr j \<Rightarrow>
                    (case getProp j ''trades'' of
                       Inl e \<Rightarrow> Inl e
                     | Inr tr \<Rightarrow> tradeLoop h m (case tr of Arr ts \<Rightarrow> ts | _ \<Rightarrow> []))))"

text \<open>
  \<open>Promise.all\<close> over the symbols, given what each symbol's request settles to, in
  the order in which the callbacks finish: the first rejection rejects the whole.
\<close>

fun allSymbols :: "host \<Rightarrow> dailyPL \<Rightarrow> (jserror + response) list \<Rightarrow> jserror + dailyPL" where
  "allSymbols h m [] = Inr m"
| "allSymbols h m (out # outs) =
     (case symbolTask h m out of Inl e \<Rightarrow> Inl e | Inr m' \<Rightarrow> allSymbols h m' outs)"

text \<open>The component's state: \<open>points\<close>, \<open>loading\<close>, \<open>err\<close>.\<close>

record ui =
  points :: "point list"
  loading :: bool
  err :: string

text \<open>
  One run of \<open>fetchAll\<close> from the state \<open>u\<close>; \<open>cancelled\<close> is the flag as the
  \<open>try\<close> block ends.
\<close>

definition fetchAll ::
  "host \<Rightarrow> jsnum \<Rightarrow> bool \<Rightarrow> (jserror + response) list \<Rightarrow> ui \<Rightarrow> ui" where
  "fetchAll h startingBalance cancelled outs u =
     (let u1 = u\<lparr>loading := True, err := []\<rparr>
      in case allSymbols h [] outs of
           Inl e \<Rightarrow>
             if cancelled then u1
             else u1\<lparr>err := (if message h e = [] then ''Failed to load'' else message h e),
                     loading := False\<rparr>
         | Inr m \<Rightarrow>
             if cancelled then u1
             else u1\<lparr>points := buildCurve m startingBalance, loading := False\<rparr>)"

section \<open>Notions used to state the properties\<close>

text \<open>A host to evaluate examples on: it reads one ISO string as a date.\<close>

definition sampleHost :: host where
  "sampleHost =
     \<lparr>dateParse = (\<lambda>s. if s = ''2023-11-14T22:13:20.000Z'' then Fin 1700000000000 else NaN),
      numberToString = (\<lambda>n. []),
      typeErrorMessage = ''Cannot read properties of null'',
      rangeErrorMessage = ''Invalid time value''\<rparr>"

text \<open>A request that fails: \<open>fetch\<close> rejects, or the status is not a success.\<close>

definition fetchFailed :: "jserror + response \<Rightarrow> bool" where
  "fetchFailed out = (case out of Inl e \<Rightarrow> True | Inr res \<Rightarrow> \<not> ok res)"

text \<open>The fields probed for the close time and for the PnL, in priority order.\<close>

definition closeFields :: "string list" where
  "closeFields = [''close_timestamp'', ''exit'', ''close_time'', ''timestamp'', ''entry_timestamp'']"

definition plFields :: "string list" where
  "plFields = [''real_profit_loss'', ''real_net_profit_loss'', ''real_net_pnl'', ''real_pnl'']"

text \<open>The first entry that is not absent; an exception met on the way is raised.\<close>

fun firstResolved :: "(jserror + 'a option) list \<Rightarrow> jserror + 'a option" where
  "firstResolved [] = Inr None"
| "firstResolved (r # rs) =
     (case r of Inl e \<Rightarrow> Inl e | Inr (Some x) \<Rightarrow> Inr (Some x) | Inr None \<Rightarrow> firstResolved rs)"

text \<open>
  What one PnL field offers: its value if it is a number; nothing if it is \<open>null\<close>
  or \<open>undefined\<close>; otherwise its coercion to a number if that is finite.
\<close>

definition plCandidate :: "host \<Rightarrow> jsval \<Rightarrow> string \<Rightarrow> jserror + jsnum option" where
  "plCandidate h t k =
     (case getProp t k of
        Inl e \<Rightarrow> Inl e
      | Inr v \<Rightarrow>
          (case v of
             Num n \<Rightarrow> Inr (Some n)
           | _ \<Rightarrow>
               if isNullish v then Inr None
               else (case ToNumber h v of
                       Inl e \<Rightarrow> Inl e
                     | Inr n \<Rightarrow> Inr (if isFinite n then Some n else None))))"

text \<open>
  A trade closed \<open>10^13\<close> seconds before the epoch, beyond the dates \<open>Date\<close> can
  hold, with a PnL of \<open>1\<close>.
\<close>

definition farPastTrade :: jsval where
  "farPastTrade =
     Obj [(''close_timestamp'', Num (Fin (- 10000000000000))), (''real_profit_loss'', Num (Fin 1))]"

text \<open>
  A successful response whose body parsed to a value other than \<open>null\<close> and whose
  \<open>trades\<close> is missing or not an array.
\<close>

definition noTradesArray :: "jserror + response \<Rightarrow> bool" where
  "noTradesArray out =
     (case out of
        Inl e \<Rightarrow> False
      | Inr res \<Rightarrow>
          ok res \<and>
          (case json res of
             Inl e \<Rightarrow> False
           | Inr j \<Rightarrow>
               \<not> isNullish j \<and>
               (case getProp j ''trades'' of Inr (Arr ts) \<Rightarrow> False | _ \<Rightarrow> True)))"


text \<open>\<open>null\<close>, \<open>undefined\<close>, a boolean, a number or a string.\<close>

definition isPrimitive :: "jsval \<Rightarrow> bool" where
  "isPrimitive v = (case v of Arr xs \<Rightarrow> False | Obj fs \<Rightarrow> False | _ \<Rightarrow> True)"

text \<open>
  What one pass of the loop body adds: the day and the PnL, nothing when the trade is
  passed over, or the exception thrown.
\<close>

definition contribution :: "host \<Rightarrow> jsval \<Rightarrow> jserror + (string \<times> jsnum) option" where
  "contribution h t =
     (case getCloseSec h t of
        Inl e \<Rightarrow> Inl e
      | Inr None \<Rightarrow> Inr None
      | Inr (Some c) \<Rightarrow>
          if \<not> isFinite c then Inr None
          else (case getPL h t of
                  Inl e \<Rightarrow> Inl e
                | Inr None \<Rightarrow> Inr None
                | Inr (Some p) \<Rightarrow>
                    if \<not> isFinite p then Inr None
                    else (case toISOString (newDate (js_mul c (Fin 1000))) of
                            Inl e \<Rightarrow> Inl e
                          | Inr isoStr \<Rightarrow> Inr (Some (take 10 isoStr, p)))))"

text \<open>The PnL a trade adds to the day \<open>d\<close>, and its magnitude, as integers.\<close>

definition plInt :: "host \<Rightarrow> string \<Rightarrow> jsval \<Rightarrow> int" where
  "plInt h d t =
     (case contribution h t of
        Inr (Some (d', Fin x)) \<Rightarrow> if d' = d then \<lfloor>x\<rfloor> else 0
      | _ \<Rightarrow> 0)"

definition plSize :: "host \<Rightarrow> jsval \<Rightarrow> int" where
  "plSize h t = (case contribution h t of Inr (Some (d, Fin x)) \<Rightarrow> \<bar>\<lfloor>x\<rfloor>\<bar> | _ \<Rightarrow> 0)"

text \<open>
  A list of trades whose PnLs are integers with magnitudes summing to at most
  \<open>2^53\<close>, so that no addition of the aggregation rounds; the integer held by a
  bucket.
\<close>

definition plIntegral :: "host \<Rightarrow> jsval \<Rightarrow> bool" where
  "plIntegral h t = (case contribution h t of Inr (Some (d, p)) \<Rightarrow> isInteger p | _ \<Rightarrow> True)"

definition exactPL :: "host \<Rightarrow> jsval list \<Rightarrow> bool" where
  "exactPL h ts = (list_all (plIntegral h) ts \<and> sum_list (map (plSize h) ts) \<le> 2 ^ 53)"

definition bucketInt :: "dailyPL \<Rightarrow> string \<Rightarrow> int" where
  "bucketInt m d = (case map_of m d of Some (Fin x) \<Rightarrow> \<lfloor>x\<rfloor> | _ \<Rightarrow> 0)"

text \<open>The trade \<open>{close_timestamp: sec, real_profit_loss: pl}\<close>.\<close>

definition tradeOf :: "rat \<Rightarrow> rat \<Rightarrow> jsval" where
  "tradeOf sec pl = Obj [(''close_timestamp'', Num (Fin sec)), (''real_profit_loss'', Num (Fin pl))]"

text \<open>
  The PnLs of the trades of \<open>ts\<close> that land on the day \<open>d\<close>, in the order of
  processing.
\<close>

fun dayPLs :: "host \<Rightarrow> string \<Rightarrow> jsval list \<Rightarrow> jsnum list" where
  "dayPLs h d [] = []"
| "dayPLs h d (t # ts) =
     (case contribution h t of
        Inr (Some (d', p)) \<Rightarrow> if d' = d then p # dayPLs h d ts else dayPLs h d ts
      | _ \<Rightarrow> dayPLs h d ts)"

text \<open>The value of a finite Number.\<close>

fun ratOf :: "jsnum \<Rightarrow> rat" where
  "ratOf (Fin x) = x"
| "ratOf n = 0"

text \<open>
  Adding the Numbers \<open>ps\<close> one after the other to the finite value \<open>acc\<close> never
  rounds: each is finite and each exact sum is a Number.
\<close>

fun noRounding :: "rat \<Rightarrow> jsnum list \<Rightarrow> bool" where
  "noRounding acc [] = True"
| "noRounding acc (Fin y # ps) = (fl (acc + y) = Fin (acc + y) \<and> noRounding (acc + y) ps)"
| "noRounding acc (p # ps) = False"

text \<open>No addition rounds while \<open>ts\<close> is aggregated from the empty \<open>dailyPL\<close>.\<close>

definition exactSums :: "host \<Rightarrow> jsval list \<Rightarrow> bool" where
  "exactSums h ts =
     list_all (\<lambda>t. case contribution h t of
                      Inr (Some (d, p)) \<Rightarrow> noRounding 0 (dayPLs h d ts)
                    | _ \<Rightarrow> True) ts"

text \<open>The PnL a trade adds to the day \<open>d\<close>, as a rational.\<close>

definition plRat :: "host \<Rightarrow> string \<Rightarrow> jsval \<Rightarrow> rat" where
  "plRat h d t =
     (case contribution h t of
        Inr (Some (d', p)) \<Rightarrow> if d' = d then ratOf p else 0
      | _ \<Rightarrow> 0)"

section \<open>Rounding\<close>

lemma pow2_powi: "pow2 e = 2 powi e"
  by (simp add: pow2_def power_int_def inverse_eq_divide power_one_over)

lemma pow2_pos [simp]: "0 < pow2 e"
  by (simp add: pow2_powi)

lemma pow2_nonneg [simp]: "0 \<le> pow2 e"
  using pow2_pos [of e] by (simp only: less_imp_le)

lemma pow2_neq0 [simp]: "pow2 e \<noteq> 0"
  by (metis pow2_pos less_irrefl)

lemma pow2_not_le0 [simp]: "\<not> pow2 e \<le> 0"
  using pow2_pos [of e] by (simp only: not_le)

lemma pow2_add: "pow2 (a + b) = pow2 a * pow2 b"
  by (simp add: pow2_powi power_int_add)

lemma pow2_Suc: "pow2 (e + 1) = 2 * pow2 e"
  using pow2_add [of e 1] by (simp add: pow2_def)

lemma pow2_strict_mono: "a < b \<Longrightarrow> pow2 a < pow2 b"
  by (simp add: pow2_powi power_int_strict_increasing)

lemma pow2_mono: "a \<le> b \<Longrightarrow> pow2 a \<le> pow2 b"
  using pow2_strict_mono [of a b] by (cases "a = b") auto

lemma pow2_nat: "0 \<le> e \<Longrightarrow> pow2 e = of_int (2 ^ nat e)"
  by (simp add: pow2_def)

lemma log2floor_nonneg: "0 \<le> log2floor n"
  by (induction n rule: log2floor.induct) (subst log2floor.simps, simp)

lemma log2floor_bounds:
  "1 \<le> n \<Longrightarrow> 2 ^ nat (log2floor n) \<le> n \<and> n < 2 * 2 ^ nat (log2floor n)"
proof (induction n rule: log2floor.induct)
  case (1 n)
  show ?case
  proof (cases "n < 2")
    case True
    with "1.prems" have "n = 1" by simp
    then show ?thesis by (simp add: log2floor.simps)
  next
    case False
    then have "1 \<le> n div 2" by simp
    from "1.IH" [OF False this]
    have ih: "2 ^ nat (log2floor (n div 2)) \<le> n div 2"
      "n div 2 < 2 * 2 ^ nat (log2floor (n div 2))" by simp_all
    have eq: "log2floor n = log2floor (n div 2) + 1"
      using False by (subst log2floor.simps) simp
    have s: "nat (log2floor n) = Suc (nat (log2floor (n div 2)))"
      using eq log2floor_nonneg [of "n div 2"] by simp
    define A :: int where "A = 2 ^ nat (log2floor (n div 2))"
    from ih have "A \<le> n div 2" "n div 2 < 2 * A" by (simp_all add: A_def)
    then have "2 * A \<le> n \<and> n < 2 * (2 * A)" by linarith
    then show ?thesis by (simp add: s A_def)
  qed
qed

lemma log2floor_pow2:
  assumes "1 \<le> n"
  shows "pow2 (log2floor n) \<le> of_int n" "of_int n < 2 * pow2 (log2floor n)"
proof -
  from log2floor_bounds [OF assms]
  have b: "2 ^ nat (log2floor n) \<le> n" "n < 2 * 2 ^ nat (log2floor n)" by simp_all
  have p: "pow2 (log2floor n) = of_int (2 ^ nat (log2floor n))"
    by (rule pow2_nat) (rule log2floor_nonneg)
  show "pow2 (log2floor n) \<le> of_int n"
    unfolding p using b(1) by (simp only: of_int_le_iff)
  have "(of_int n :: rat) < of_int (2 * 2 ^ nat (log2floor n))"
    using b(2) by (simp only: of_int_less_iff)
  then show "of_int n < 2 * pow2 (log2floor n)"
    unfolding p by simp
qed

text \<open>\<open>exponent\<close> is the binary exponent.\<close>

lemma exponent_bounds:
  assumes "x \<noteq> 0"
  shows "pow2 (exponent x) \<le> \<bar>x\<bar> \<and> \<bar>x\<bar> < pow2 (exponent x + 1)"
proof -
  obtain p q where pq: "quotient_of \<bar>x\<bar> = (p, q)" by (cases "quotient_of \<bar>x\<bar>")
  have q: "0 < q" using quotient_of_denom_pos [OF pq] .
  have x: "\<bar>x\<bar> = of_int p / of_int q" using quotient_of_div [OF pq] .
  have "0 < \<bar>x\<bar>" using assms by simp
  with x q have "0 < (of_int p :: rat)" by (simp add: zero_less_divide_iff)
  then have p: "1 \<le> p" by simp
  define a where "a = log2floor p"
  define b where "b = log2floor q"
  define d where "d = a - b"
  define P :: rat where "P = of_int p"
  define Q :: rat where "Q = of_int q"
  have Pb: "pow2 a \<le> P" "P < 2 * pow2 a"
    using log2floor_pow2 [OF p] by (simp_all add: a_def P_def)
  have Qb: "pow2 b \<le> Q" "Q < 2 * pow2 b"
    using q log2floor_pow2 [of q] by (simp_all add: b_def Q_def)
  have Qpos: "0 < Q" using q by (simp add: Q_def)
  have ab: "pow2 a = pow2 d * pow2 b"
    unfolding d_def by (simp add: pow2_add [symmetric])
  have hi: "P / Q < pow2 (d + 1)"
  proof -
    have "P < 2 * pow2 d * pow2 b" using Pb(2) ab by simp
    also have "\<dots> \<le> 2 * pow2 d * Q"
      using Qb(1) by (intro mult_left_mono) simp_all
    finally show ?thesis using Qpos by (simp add: pow2_Suc pos_divide_less_eq)
  qed
  have lo: "pow2 (d - 1) \<le> P / Q"
  proof -
    have "pow2 (d - 1) * Q \<le> pow2 (d - 1) * (2 * pow2 b)"
      using Qb(2) by (intro mult_left_mono) simp_all
    also have "\<dots> = pow2 d * pow2 b"
      using pow2_Suc [of "d - 1"] by simp
    also have "\<dots> \<le> P" using Pb(1) ab by simp
    finally show ?thesis using Qpos by (simp add: pos_le_divide_eq)
  qed
  have e: "exponent x = (if pow2 d \<le> \<bar>x\<bar> then d else d - 1)"
    by (simp add: exponent_def pq a_def b_def d_def)
  show ?thesis
  proof (cases "pow2 d \<le> \<bar>x\<bar>")
    case True
    with e hi x show ?thesis by (simp add: P_def Q_def)
  next
    case False
    with e lo x show ?thesis by (simp add: P_def Q_def)
  qed
qed

lemma exponent_unique:
  assumes "pow2 e \<le> \<bar>x\<bar>" and "\<bar>x\<bar> < pow2 (e + 1)"
  shows "exponent x = e"
proof -
  have "x \<noteq> 0" using assms(1) pow2_pos [of e] by auto
  from exponent_bounds [OF this]
  have b: "pow2 (exponent x) \<le> \<bar>x\<bar>" "\<bar>x\<bar> < pow2 (exponent x + 1)" by simp_all
  have "\<not> exponent x < e"
  proof
    assume "exponent x < e"
    then have "pow2 (exponent x + 1) \<le> pow2 e" by (intro pow2_mono) simp
    with b(2) assms(1) show False by simp
  qed
  moreover have "\<not> e < exponent x"
  proof
    assume "e < exponent x"
    then have "pow2 (e + 1) \<le> pow2 (exponent x)" by (intro pow2_mono) simp
    with b(1) assms(2) show False by simp
  qed
  ultimately show ?thesis by simp
qed

lemma roundTiesToEven_int [simp]: "roundTiesToEven (of_int k) = k"
  by (simp add: roundTiesToEven_def)

text \<open>A value that needs no rounding is kept.\<close>

lemma fl_exact:
  assumes "x / pow2 (max (exponent x) (- 1022) - 52) = of_int k" and "\<bar>x\<bar> < pow2 1024"
  shows "fl x = Fin x"
proof (cases "x = 0")
  case True
  then show ?thesis by (simp add: fl_def)
next
  case False
  define q where "q = pow2 (max (exponent x) (- 1022) - 52)"
  have "q \<noteq> 0" by (simp add: q_def)
  with assms(1) have r: "of_int k * q = x" by (simp add: q_def [symmetric] field_simps)
  from assms(2) have "\<not> pow2 1024 \<le> x" "\<not> x \<le> - pow2 1024" by linarith+
  with False r show ?thesis
    using assms(1) by (simp add: fl_def Let_def q_def [symmetric])
qed

text \<open>Integers up to \<open>2^53\<close> in magnitude are Numbers.\<close>

lemma fl_int:
  assumes "\<bar>n\<bar> \<le> 2 ^ 53"
  shows "fl (of_int n) = Fin (of_int n)"
proof (cases "n = 0")
  case True
  then show ?thesis by (simp add: fl_def)
next
  case False
  define x :: rat where "x = of_int n"
  define e where "e = exponent x"
  have x0: "x \<noteq> 0" using False by (simp add: x_def)
  have ax: "1 \<le> \<bar>x\<bar>" "\<bar>x\<bar> \<le> 2 ^ 53"
  proof -
    have "1 \<le> \<bar>n\<bar>" using False by simp
    then have "(of_int 1 :: rat) \<le> of_int \<bar>n\<bar>" by (simp only: of_int_le_iff)
    then show "1 \<le> \<bar>x\<bar>" by (simp add: x_def)
    have "(of_int \<bar>n\<bar> :: rat) \<le> of_int (2 ^ 53)" using assms by (simp only: of_int_le_iff)
    then show "\<bar>x\<bar> \<le> 2 ^ 53" by (simp add: x_def)
  qed
  from exponent_bounds [OF x0]
  have b: "pow2 e \<le> \<bar>x\<bar>" "\<bar>x\<bar> < pow2 (e + 1)" by (simp_all add: e_def)
  have e0: "0 \<le> e"
  proof (rule ccontr)
    assume "\<not> 0 \<le> e"
    then have "pow2 (e + 1) \<le> pow2 0" by (intro pow2_mono) simp
    with b(2) ax(1) show False by (simp add: pow2_def)
  qed
  have e53: "e \<le> 53"
  proof (rule ccontr)
    assume "\<not> e \<le> 53"
    then have "pow2 54 \<le> pow2 e" by (intro pow2_mono) simp
    with b(1) ax(2) show False by (simp add: pow2_def)
  qed
  have "\<exists>k. x / pow2 (e - 52) = of_int k"
  proof (cases "e \<le> 52")
    case True
    have "pow2 (e - 52) * pow2 (52 - e) = 1"
      unfolding pow2_add [symmetric] by (simp add: pow2_def)
    then have "x / pow2 (e - 52) = x * pow2 (52 - e)"
      by (simp add: field_simps)
    also have "\<dots> = of_int (n * 2 ^ nat (52 - e))"
      using True by (simp add: x_def pow2_nat)
    finally show ?thesis by blast
  next
    case False
    with e53 have e: "e = 53" by simp
    with b(1) ax(2) have "\<bar>x\<bar> = 2 ^ 53" by (simp add: pow2_def)
    then have "x = 2 ^ 53 \<or> x = - (2 ^ 53)" by linarith
    then have "x / pow2 (e - 52) = of_int (2 ^ 52) \<or> x / pow2 (e - 52) = of_int (- (2 ^ 52))"
      by (auto simp: e pow2_def)
    then show ?thesis by blast
  qed
  then obtain k where k: "x / pow2 (max (exponent x) (- 1022) - 52) = of_int k"
    using e0 by (auto simp: e_def max_def)
  have "\<bar>x\<bar> < pow2 1024"
  proof -
    have "pow2 54 \<le> pow2 1024" by (intro pow2_mono) simp
    moreover have "\<bar>x\<bar> < pow2 54" using ax(2) by (simp add: pow2_def)
    ultimately show ?thesis by linarith
  qed
  from fl_exact [OF k this] show ?thesis by (simp add: x_def)
qed

text \<open>Rounding a value whose binary exponent is known.\<close>

lemma fl_eval:
  assumes "pow2 e \<le> \<bar>x\<bar>" and "\<bar>x\<bar> < pow2 (e + 1)"
  shows "fl x =
     (let q = pow2 (max e (- 1022) - 52);
          r = of_int (roundTiesToEven (x / q)) * q
      in if pow2 1024 \<le> r then PInf else if r \<le> - pow2 1024 then NInf else Fin r)"
proof -
  have "x \<noteq> 0" using assms(1) pow2_pos [of e] by auto
  then show ?thesis by (simp add: fl_def exponent_unique [OF assms])
qed

lemma floor_numeral_div [simp]:
  "\<lfloor>numeral a / numeral b :: rat\<rfloor> = numeral a div numeral b"
  "\<lfloor>- numeral a / numeral b :: rat\<rfloor> = - numeral a div numeral b"
  using floor_divide_of_int_eq [of "numeral a" "numeral b", where ?'a = rat]
    floor_divide_of_int_eq [of "- numeral a" "numeral b", where ?'a = rat]
  by simp_all

lemma fl_numeral:
  "(numeral k :: int) \<le> 9007199254740992 \<Longrightarrow> fl (numeral k) = Fin (numeral k)"
  "(numeral k :: int) \<le> 9007199254740992 \<Longrightarrow> fl (- numeral k) = Fin (- numeral k)"
  using fl_int [of "numeral k"] fl_int [of "- numeral k"] by simp_all

section \<open>Evaluating string conversions\<close>

lemma isDigit_simps [simp]:
  "isDigit CHR ''0''" "isDigit CHR ''1''" "isDigit CHR ''2''" "isDigit CHR ''3''"
  "isDigit CHR ''4''" "isDigit CHR ''5''" "isDigit CHR ''6''" "isDigit CHR ''7''"
  "isDigit CHR ''8''" "isDigit CHR ''9''"
  by (simp_all add: isDigit_def)

lemmas StringToNumber_eval =
  StringToNumber_def trim_def isStrWhiteSpace_def nonDecimal_def unsignedDecimal_def
  exponentPart_def digitsVal_def digitVal_def pow10_def

lemma StringToNumber_1700000000000:
  "StringToNumber ''1700000000000'' = Fin 1700000000000"
  by (simp add: StringToNumber_eval fl_numeral)

lemma StringToNumber_1700000000:
  "StringToNumber ''1700000000'' = Fin 1700000000"
  by (simp add: StringToNumber_eval fl_numeral)

section \<open>Evaluating dates\<close>

lemma showInt_digit: "n < 10 \<Longrightarrow> showInt n = [''0123456789'' ! nat n]"
  by (subst showInt.simps) simp

lemma showInt_more:
  "10 \<le> n \<Longrightarrow> showInt n = showInt (n div 10) @ [''0123456789'' ! nat (n mod 10)]"
  by (subst showInt.simps) simp

lemma replicate_numeral: "replicate (numeral k) x = x # replicate (pred_numeral k) x"
  by (simp add: numeral_eq_Suc)

lemmas pad_eval = pad_def showInt_digit showInt_more replicate_numeral


lemma civilFromDays_0: "civilFromDays 0 = (1970, 1, 1)"
  by (simp only: civilFromDays_def Let_def) simp


lemma toISOString_0: "toISOString (Some 0) = Inr ''1970-01-01T00:00:00.000Z''"
  by (simp add: civilFromDays_0 pad_eval)

lemma civilFromDays_1: "civilFromDays 1 = (1970, 1, 2)"
  by (simp only: civilFromDays_def Let_def) simp

lemma toISOString_86400000: "toISOString (Some 86400000) = Inr ''1970-01-02T00:00:00.000Z''"
  by (simp add: civilFromDays_1 pad_eval)

section \<open>The timestamp normalizer on the encodings of one instant\<close>

text \<open>
  C1. The claim: every supported encoding of one instant normalizes to the same
  epoch seconds, in particular the number \<open>1700000000000\<close> to \<open>1700000000\<close>.
  On the code the number \<open>1700000000000\<close> is not above the threshold
  \<open>2_000_000_000_000\<close> of \<open>toSec\<close>, so it is returned as it is, as if it were
  seconds, while the 13-digit string of the same digits, the number of seconds, the
  10-digit string and a date string for that instant all give \<open>1700000000\<close>.
\<close>

theorem toSec_ms_number_below_threshold:
  "toSec h (Num (Fin 1700000000000)) = Inr (Some (Fin 1700000000000))
   \<and> toSec h (Num (Fin 1700000000)) = Inr (Some (Fin 1700000000))
   \<and> toSec h (Str ''1700000000000'') = Inr (Some (Fin 1700000000))
   \<and> toSec h (Str ''1700000000'') = Inr (Some (Fin 1700000000))
   \<and> toSec sampleHost (Str ''2023-11-14T22:13:20.000Z'') = Inr (Some (Fin 1700000000))"
proof -
  have "toSec h (Num (Fin 1700000000000)) = Inr (Some (Fin 1700000000000))"
    by (simp add: toSec_def isNullish_def)
  moreover have "toSec h (Num (Fin 1700000000)) = Inr (Some (Fin 1700000000))"
    by (simp add: toSec_def isNullish_def)
  moreover have "toSec h (Str ''1700000000000'') = Inr (Some (Fin 1700000000))"
    by (simp add: toSec_def isNullish_def isDigits_def StringToNumber_1700000000000
        fl_numeral)
  moreover have "toSec h (Str ''1700000000'') = Inr (Some (Fin 1700000000))"
    by (simp add: toSec_def isNullish_def isDigits_def StringToNumber_1700000000)
  moreover have
    "toSec sampleHost (Str ''2023-11-14T22:13:20.000Z'') = Inr (Some (Fin 1700000000))"
    by (simp add: toSec_def isNullish_def isDigits_def sampleHost_def fl_numeral)
  ultimately show ?thesis by (intro conjI)
qed

section \<open>The equity curve is a prefix sum over the sorted days\<close>

lemma curveLoop_dates: "map date (curveLoop m eq days) = days"
  by (induction days arbitrary: eq) (simp_all add: Let_def)

lemma curveLoop_length: "length (curveLoop m eq days) = length days"
  using curveLoop_dates [of m eq days] by (metis length_map)

lemma curveLoop_step:
  "i < length days \<Longrightarrow>
   equity (curveLoop m eq days ! i) =
     js_add (if i = 0 then eq else equity (curveLoop m eq days ! (i - 1)))
            (case map_of m (days ! i) of None \<Rightarrow> NaN | Some v \<Rightarrow> v)"
proof (induction days arbitrary: eq i)
  case Nil
  then show ?case by simp
next
  case (Cons d ds)
  show ?case
  proof (cases i)
    case 0
    then show ?thesis by (simp add: Let_def)
  next
    case (Suc k)
    with Cons.prems have k: "k < length ds" by simp
    show ?thesis
    proof (cases k)
      case 0
      with Suc k Cons.IH [OF k] show ?thesis by (simp add: Let_def)
    next
      case (Suc k')
      with \<open>i = Suc k\<close> k Cons.IH [OF k] show ?thesis by (simp add: Let_def)
    qed
  qed
qed

lemma buildCurve_example:
  "buildCurve [(''2024-01-01'', Fin 10), (''2024-01-02'', Fin (- 5))] (Fin 100) =
     [\<lparr>date = ''2024-01-01'', equity = Fin 110\<rparr>,
      \<lparr>date = ''2024-01-02'', equity = Fin 105\<rparr>]"
  by (simp add: buildCurve_def fl_numeral)

text \<open>
  C2. For every daily-PnL mapping \<open>m\<close> and starting balance: the days of the points
  are the keys of \<open>m\<close> sorted ascending; there is one point per key; the equity of
  each point is the equity before it (the starting balance for the first point) plus
  that day's sum; the empty mapping gives no point; and the mapping
  \<open>{"2024-01-01": 10, "2024-01-02": -5}\<close> from \<open>100\<close> gives \<open>110\<close> then \<open>105\<close>.
\<close>

theorem buildCurve_prefix_sum:
  "map date (buildCurve m startingBalance) = sort (map fst m)
   \<and> length (buildCurve m startingBalance) = length m
   \<and> (\<forall>i < length m. \<exists>v.
         map_of m (date (buildCurve m startingBalance ! i)) = Some v
         \<and> equity (buildCurve m startingBalance ! i) =
             js_add (if i = 0 then startingBalance
                     else equity (buildCurve m startingBalance ! (i - 1))) v)
   \<and> buildCurve [] startingBalance = []
   \<and> buildCurve [(''2024-01-01'', Fin 10), (''2024-01-02'', Fin (- 5))] (Fin 100) =
       [\<lparr>date = ''2024-01-01'', equity = Fin 110\<rparr>,
        \<lparr>date = ''2024-01-02'', equity = Fin 105\<rparr>]"
proof -
  let ?days = "sort (map fst m)"
  let ?pts = "buildCurve m startingBalance"
  have dates: "map date ?pts = ?days"
    by (simp add: buildCurve_def curveLoop_dates)
  have len: "length ?pts = length m"
    by (simp add: buildCurve_def curveLoop_length)
  have step: "\<forall>i < length m. \<exists>v.
         map_of m (date (?pts ! i)) = Some v
         \<and> equity (?pts ! i) =
             js_add (if i = 0 then startingBalance else equity (?pts ! (i - 1))) v"
  proof (intro allI impI)
    fix i assume i: "i < length m"
    then have i': "i < length ?days" by simp
    have "date (?pts ! i) = ?days ! i"
      using dates i len by (metis nth_map)
    moreover have "?days ! i \<in> set (map fst m)"
      using i' by (metis nth_mem set_sort)
    then obtain v where v: "map_of m (?days ! i) = Some v"
      by (metis map_of_eq_None_iff not_Some_eq set_map)
    moreover have "equity (?pts ! i) =
        js_add (if i = 0 then startingBalance else equity (?pts ! (i - 1)))
               (case map_of m (?days ! i) of None \<Rightarrow> NaN | Some v \<Rightarrow> v)"
      unfolding buildCurve_def by (rule curveLoop_step [OF i'])
    ultimately show "\<exists>v. map_of m (date (?pts ! i)) = Some v
         \<and> equity (?pts ! i) =
             js_add (if i = 0 then startingBalance else equity (?pts ! (i - 1))) v"
      by simp
  qed
  have empty: "buildCurve [] startingBalance = []"
    by (simp add: buildCurve_def)
  from dates len step empty buildCurve_example show ?thesis by (intro conjI)
qed

theorem buildCurve_prefix_sum_witness:
  "(1::nat) < length [(''2024-01-02'', Fin (- 5)), (''2024-01-01'', Fin 10)]
   \<and> map date (buildCurve [(''2024-01-02'', Fin (- 5)), (''2024-01-01'', Fin 10)] (Fin 100))
       = [''2024-01-01'', ''2024-01-02'']
   \<and> (\<exists>v. map_of [(''2024-01-02'', Fin (- 5)), (''2024-01-01'', Fin 10)]
             (date (buildCurve [(''2024-01-02'', Fin (- 5)), (''2024-01-01'', Fin 10)]
                (Fin 100) ! 1)) = Some v
          \<and> equity (buildCurve [(''2024-01-02'', Fin (- 5)), (''2024-01-01'', Fin 10)]
                (Fin 100) ! 1) =
              js_add (equity (buildCurve [(''2024-01-02'', Fin (- 5)), (''2024-01-01'', Fin 10)]
                (Fin 100) ! 0)) v)"
proof -
  let ?m = "[(''2024-01-02'', Fin (- 5)), (''2024-01-01'', Fin 10)]"
  note t = buildCurve_prefix_sum [of ?m "Fin 100"]
  have l: "(1::nat) < length ?m" by simp
  from t have "map date (buildCurve ?m (Fin 100)) = sort (map fst ?m)" by (rule conjunct1)
  then have d: "map date (buildCurve ?m (Fin 100)) = [''2024-01-01'', ''2024-01-02'']"
    by simp
  from t have "\<forall>i < length ?m. \<exists>v.
         map_of ?m (date (buildCurve ?m (Fin 100) ! i)) = Some v
         \<and> equity (buildCurve ?m (Fin 100) ! i) =
             js_add (if i = 0 then Fin 100
                     else equity (buildCurve ?m (Fin 100) ! (i - 1))) v"
    by blast
  from this [rule_format, OF l] l d show ?thesis by simp
qed

section \<open>A failed request commits nothing\<close>

lemma allSymbols_fails:
  assumes "out \<in> set outs" and "\<And>m. \<exists>e. symbolTask h m out = Inl e"
  shows "\<exists>e. allSymbols h m outs = Inl e"
  using assms(1)
proof (induction outs arbitrary: m)
  case Nil
  then show ?case by simp
next
  case (Cons a outs)
  show ?case
  proof (cases "symbolTask h m a")
    case (Inl e)
    then show ?thesis by simp
  next
    case (Inr m')
    have "a \<noteq> out" using Inr assms(2) [of m] by auto
    with Cons.prems have "out \<in> set outs" by simp
    from Cons.IH [OF this, of m'] Inr show ?thesis by simp
  qed
qed

lemma symbolTask_fetchFailed:
  "fetchFailed out \<Longrightarrow> \<exists>e. symbolTask h m out = Inl e"
  by (cases out) (simp_all add: fetchFailed_def symbolTask_def)

lemma fetchAll_on_failure:
  assumes "allSymbols h [] outs = Inl e"
  shows "points (fetchAll h sb cancelled outs u) = points u"
    and "\<not> cancelled \<Longrightarrow> err (fetchAll h sb cancelled outs u) \<noteq> []"
    and "\<not> cancelled \<Longrightarrow> \<not> loading (fetchAll h sb cancelled outs u)"
  using assms by (simp_all add: fetchAll_def Let_def)

text \<open>
  C3. If the request of one symbol fails (\<open>fetch\<close> rejects or the status is not a
  success), whatever the other symbols return and in whatever order the requests
  finish, the cycle leaves the committed points as they were; unless the cycle was
  cancelled meanwhile, it ends with an error message shown and \<open>loading\<close> off.
\<close>

theorem failed_fetch_commits_nothing:
  assumes "\<exists>out \<in> set outs. fetchFailed out"
  shows "points (fetchAll h startingBalance cancelled outs u) = points u
         \<and> (\<not> cancelled \<longrightarrow>
              err (fetchAll h startingBalance cancelled outs u) \<noteq> []
              \<and> \<not> loading (fetchAll h startingBalance cancelled outs u))"
proof -
  from assms obtain out where "out \<in> set outs" "fetchFailed out" by blast
  then obtain e where "allSymbols h [] outs = Inl e"
    using allSymbols_fails [of out outs h "[]"] symbolTask_fetchFailed [of out h] by blast
  from fetchAll_on_failure [OF this] show ?thesis by blast
qed

theorem failed_fetch_commits_nothing_witness:
  "fetchFailed (Inr \<lparr>ok = False, status = 404, statusText = ''Not Found'', json = Inr Null\<rparr>)
   \<and> points (fetchAll sampleHost (Fin 1000) False
        [Inr \<lparr>ok = True, status = 200, statusText = ''OK'',
               json = Inr (Obj [(''trades'', Arr [Obj [(''close_timestamp'', Num (Fin 1700000000)),
                                                      (''real_profit_loss'', Num (Fin 50))]])])\<rparr>,
         Inr \<lparr>ok = False, status = 404, statusText = ''Not Found'', json = Inr Null\<rparr>]
        \<lparr>points = [\<lparr>date = ''2023-11-13'', equity = Fin 990\<rparr>], loading = False, err = []\<rparr>)
       = [\<lparr>date = ''2023-11-13'', equity = Fin 990\<rparr>]
   \<and> err (fetchAll sampleHost (Fin 1000) False
        [Inr \<lparr>ok = True, status = 200, statusText = ''OK'',
               json = Inr (Obj [(''trades'', Arr [Obj [(''close_timestamp'', Num (Fin 1700000000)),
                                                      (''real_profit_loss'', Num (Fin 50))]])])\<rparr>,
         Inr \<lparr>ok = False, status = 404, statusText = ''Not Found'', json = Inr Null\<rparr>]
        \<lparr>points = [\<lparr>date = ''2023-11-13'', equity = Fin 990\<rparr>], loading = False, err = []\<rparr>)
       \<noteq> []"
proof -
  let ?bad = "Inr \<lparr>ok = False, status = 404, statusText = ''Not Found'', json = Inr Null\<rparr>
                :: jserror + response"
  let ?good = "Inr \<lparr>ok = True, status = 200, statusText = ''OK'',
               json = Inr (Obj [(''trades'', Arr [Obj [(''close_timestamp'', Num (Fin 1700000000)),
                                                      (''real_profit_loss'', Num (Fin 50))]])])\<rparr>
                :: jserror + response"
  have f: "fetchFailed ?bad" by (simp add: fetchFailed_def)
  then have "\<exists>out \<in> set [?good, ?bad]. fetchFailed out" by simp
  from failed_fetch_commits_nothing [OF this, of sampleHost "Fin 1000" False] f
  show ?thesis by simp
qed

section \<open>Field resolvers\<close>

lemma firstResolved_Cons: "firstResolved (r # rs) = nullish r (firstResolved rs)"
  by (cases r) (auto split: option.splits)

lemma nullish_assoc: "nullish (nullish a b) c = nullish a (nullish b c)"
  by (induction a b rule: nullish.induct) simp_all

lemma nullish_None_right [simp]: "nullish a (Inr None) = a"
  by (induction a "Inr None :: jserror + 'a option" rule: nullish.induct) simp_all

lemma firstResolved_nth:
  "i < length rs \<Longrightarrow> \<forall>j < i. rs ! j = Inr None \<Longrightarrow> rs ! i = Inr (Some x) \<Longrightarrow>
   firstResolved rs = Inr (Some x)"
proof (induction rs arbitrary: i)
  case Nil
  then show ?case by simp
next
  case (Cons r rs)
  show ?case
  proof (cases i)
    case 0
    with Cons.prems show ?thesis by simp
  next
    case (Suc k)
    with Cons.prems have r: "r = Inr None" by auto
    have "k < length rs" using Suc Cons.prems by simp
    moreover have "\<forall>j < k. rs ! j = Inr None"
      using Cons.prems(2) Suc by auto
    moreover have "rs ! k = Inr (Some x)" using Cons.prems(3) Suc by simp
    ultimately have "firstResolved rs = Inr (Some x)" by (rule Cons.IH)
    with r show ?thesis by simp
  qed
qed

lemma firstResolved_all_None:
  "\<forall>j < length rs. rs ! j = Inr None \<Longrightarrow> firstResolved rs = Inr None"
proof (induction rs)
  case Nil
  then show ?case by simp
next
  case (Cons r rs)
  from Cons.prems have "r = Inr None" by auto
  moreover have "\<forall>j < length rs. rs ! j = Inr None" using Cons.prems by auto
  ultimately show ?case using Cons.IH by simp
qed

lemma getCloseSec_firstResolved:
  "getCloseSec h t = firstResolved (map (toSecOf h t) closeFields)"
  by (simp add: getCloseSec_def closeFields_def firstResolved_Cons nullish_assoc
      del: firstResolved.simps(2))

lemma plField_nullish: "plField h t k rest = nullish (plCandidate h t k) rest"
  by (auto simp: plField_def plCandidate_def split: sum.splits jsval.splits)

lemma getPL_firstResolved:
  "getPL h t = firstResolved (map (plCandidate h t) plFields)"
  by (simp add: getPL_def plFields_def firstResolved_Cons plField_nullish
      del: firstResolved.simps(2))

lemma firstResolved_nth_raises:
  "i < length rs \<Longrightarrow> \<forall>j < i. rs ! j = Inr None \<Longrightarrow> rs ! i = Inl e \<Longrightarrow>
   firstResolved rs = Inl e"
proof (induction rs arbitrary: i)
  case Nil
  then show ?case by simp
next
  case (Cons r rs)
  show ?case
  proof (cases i)
    case 0
    with Cons.prems show ?thesis by simp
  next
    case (Suc k)
    with Cons.prems have r: "r = Inr None" by auto
    have "k < length rs" using Suc Cons.prems by simp
    moreover have "\<forall>j < k. rs ! j = Inr None"
      using Cons.prems(2) Suc by auto
    moreover have "rs ! k = Inl e" using Cons.prems(3) Suc by simp
    ultimately have "firstResolved rs = Inl e" by (rule Cons.IH)
    with r show ?thesis by simp
  qed
qed

lemma toSecOf_absent:
  "\<exists>v. getProp t k = Inr v \<and> toSec h v = Inr None \<Longrightarrow> toSecOf h t k = Inr None"
  by (auto simp: toSecOf_def)

lemma StringToNumber_0000000000: "StringToNumber ''0000000000'' = Fin 0"
  by (simp add: StringToNumber_eval fl_def)

text \<open>
  C6, as the code has it. The close-time resolver probes \<open>close_timestamp\<close>,
  \<open>exit\<close>, \<open>close_time\<close>, \<open>timestamp\<close>, \<open>entry_timestamp\<close> in that order and
  normalizes each with \<open>toSec\<close>. If the fields before the \<open>i\<close>-th normalize to
  absent, then: when \<open>toSec\<close> of the \<open>i\<close>-th gives a value \<open>x\<close>, the result is \<open>x\<close>,
  whatever \<open>x\<close> is; when \<open>toSec\<close> of the \<open>i\<close>-th throws, the resolver throws the
  same. If all five normalize to absent the result is absent. A trade that is
  \<open>null\<close> makes the resolver throw. A \<open>close_timestamp\<close> that normalizes to \<open>0\<close>
  is the result.
\<close>

theorem getCloseSec_first_non_absent:
  "(\<forall>i < length closeFields.
      (\<forall>j < i. \<exists>v. getProp t (closeFields ! j) = Inr v \<and> toSec h v = Inr None) \<longrightarrow>
      (\<forall>v x. getProp t (closeFields ! i) = Inr v \<longrightarrow> toSec h v = Inr (Some x) \<longrightarrow>
         getCloseSec h t = Inr (Some x))
      \<and> (\<forall>v e. getProp t (closeFields ! i) = Inr v \<longrightarrow> toSec h v = Inl e \<longrightarrow>
         getCloseSec h t = Inl e))
   \<and> ((\<forall>j < length closeFields.
          \<exists>v. getProp t (closeFields ! j) = Inr v \<and> toSec h v = Inr None) \<longrightarrow>
        getCloseSec h t = Inr None)
   \<and> (\<forall>e. getProp t ''close_timestamp'' = Inl e \<longrightarrow> getCloseSec h t = Inl e)
   \<and> (\<forall>v. getProp t ''close_timestamp'' = Inr v \<longrightarrow> toSec h v = Inr (Some (Fin 0)) \<longrightarrow>
        getCloseSec h t = Inr (Some (Fin 0)))"
proof (intro conjI allI impI)
  fix i v x
  assume i: "i < length closeFields"
    and abs: "\<forall>j < i. \<exists>v. getProp t (closeFields ! j) = Inr v \<and> toSec h v = Inr None"
    and v: "getProp t (closeFields ! i) = Inr v" "toSec h v = Inr (Some x)"
  from abs have a: "\<forall>j < i. map (toSecOf h t) closeFields ! j = Inr None"
    using i by (auto simp: toSecOf_absent)
  from v i have b: "map (toSecOf h t) closeFields ! i = Inr (Some x)"
    by (simp add: toSecOf_def)
  show "getCloseSec h t = Inr (Some x)"
    unfolding getCloseSec_firstResolved
    using i a b by (intro firstResolved_nth [of i]) simp_all
next
  fix i v e
  assume i: "i < length closeFields"
    and abs: "\<forall>j < i. \<exists>v. getProp t (closeFields ! j) = Inr v \<and> toSec h v = Inr None"
    and v: "getProp t (closeFields ! i) = Inr v" "toSec h v = Inl e"
  from abs have a: "\<forall>j < i. map (toSecOf h t) closeFields ! j = Inr None"
    using i by (auto simp: toSecOf_absent)
  from v i have b: "map (toSecOf h t) closeFields ! i = Inl e"
    by (simp add: toSecOf_def)
  show "getCloseSec h t = Inl e"
    unfolding getCloseSec_firstResolved
    using i a b by (intro firstResolved_nth_raises [of i]) simp_all
next
  assume "\<forall>j < length closeFields.
          \<exists>v. getProp t (closeFields ! j) = Inr v \<and> toSec h v = Inr None"
  then have "\<forall>j < length (map (toSecOf h t) closeFields).
      map (toSecOf h t) closeFields ! j = Inr None"
    by (auto simp: toSecOf_absent)
  then show "getCloseSec h t = Inr None"
    unfolding getCloseSec_firstResolved by (rule firstResolved_all_None)
next
  fix e assume "getProp t ''close_timestamp'' = Inl e"
  then show "getCloseSec h t = Inl e"
    by (simp add: getCloseSec_def toSecOf_def)
next
  fix v assume "getProp t ''close_timestamp'' = Inr v" "toSec h v = Inr (Some (Fin 0))"
  then show "getCloseSec h t = Inr (Some (Fin 0))"
    by (simp add: getCloseSec_def toSecOf_def)
qed

theorem getCloseSec_first_non_absent_witness:
  "(1::nat) < length closeFields
   \<and> getProp (Obj [(''close_timestamp'', Str ''n/a''), (''exit'', Str ''0000000000''),
                   (''close_time'', Num (Fin 5))]) (closeFields ! 0) = Inr (Str ''n/a'')
   \<and> toSec sampleHost (Str ''n/a'') = Inr None
   \<and> getProp (Obj [(''close_timestamp'', Str ''n/a''), (''exit'', Str ''0000000000''),
                   (''close_time'', Num (Fin 5))]) (closeFields ! 1) = Inr (Str ''0000000000'')
   \<and> toSec sampleHost (Str ''0000000000'') = Inr (Some (Fin 0))
   \<and> getCloseSec sampleHost
         (Obj [(''close_timestamp'', Str ''n/a''), (''exit'', Str ''0000000000''),
               (''close_time'', Num (Fin 5))])
       = Inr (Some (Fin 0))
   \<and> getProp (Obj [(''close_timestamp'', Null), (''exit'', Obj [(''toString'', Num (Fin 1))]),
                   (''close_time'', Num (Fin 5))]) (closeFields ! 0) = Inr Null
   \<and> toSec sampleHost Null = Inr None
   \<and> getProp (Obj [(''close_timestamp'', Null), (''exit'', Obj [(''toString'', Num (Fin 1))]),
                   (''close_time'', Num (Fin 5))]) (closeFields ! 1)
       = Inr (Obj [(''toString'', Num (Fin 1))])
   \<and> toSec sampleHost (Obj [(''toString'', Num (Fin 1))]) = Inl TypeError
   \<and> getCloseSec sampleHost
         (Obj [(''close_timestamp'', Null), (''exit'', Obj [(''toString'', Num (Fin 1))]),
               (''close_time'', Num (Fin 5))])
       = Inl TypeError
   \<and> getProp Null ''close_timestamp'' = Inl TypeError
   \<and> getCloseSec sampleHost Null = Inl TypeError"
proof -
  let ?t = "Obj [(''close_timestamp'', Str ''n/a''), (''exit'', Str ''0000000000''),
               (''close_time'', Num (Fin 5))]"
  let ?u = "Obj [(''close_timestamp'', Null), (''exit'', Obj [(''toString'', Num (Fin 1))]),
               (''close_time'', Num (Fin 5))]"
  have l: "(1::nat) < length closeFields" by (simp add: closeFields_def)
  have g0: "getProp ?t (closeFields ! 0) = Inr (Str ''n/a'')" by (simp add: closeFields_def)
  have n0: "toSec sampleHost (Str ''n/a'') = Inr None"
    by (simp add: toSec_def isNullish_def isDigits_def sampleHost_def)
  have g1: "getProp ?t (closeFields ! 1) = Inr (Str ''0000000000'')"
    by (simp add: closeFields_def)
  have n1: "toSec sampleHost (Str ''0000000000'') = Inr (Some (Fin 0))"
    by (simp add: toSec_def isNullish_def isDigits_def StringToNumber_0000000000)
  have a: "\<forall>j < 1. \<exists>v. getProp ?t (closeFields ! j) = Inr v \<and> toSec sampleHost v = Inr None"
    using g0 n0 by simp
  from getCloseSec_first_non_absent [where h = sampleHost and t = ?t, THEN conjunct1, rule_format, OF l]
    a g1 n1
  have r: "getCloseSec sampleHost ?t = Inr (Some (Fin 0))" by blast
  have h0: "getProp ?u (closeFields ! 0) = Inr Null" by (simp add: closeFields_def)
  have m0: "toSec sampleHost Null = Inr None" by (simp add: toSec_def isNullish_def)
  have h1: "getProp ?u (closeFields ! 1) = Inr (Obj [(''toString'', Num (Fin 1))])"
    by (simp add: closeFields_def)
  have m1: "toSec sampleHost (Obj [(''toString'', Num (Fin 1))]) = Inl TypeError"
    by (simp add: toSec_def isNullish_def)
  have b: "\<forall>j < 1. \<exists>v. getProp ?u (closeFields ! j) = Inr v \<and> toSec sampleHost v = Inr None"
    using h0 m0 by simp
  from getCloseSec_first_non_absent [where h = sampleHost and t = ?u, THEN conjunct1, rule_format, OF l]
    b h1 m1
  have s: "getCloseSec sampleHost ?u = Inl TypeError" by blast
  have gn: "getProp Null ''close_timestamp'' = Inl TypeError" by simp
  from getCloseSec_first_non_absent [where h = sampleHost and t = Null,
      THEN conjunct2, THEN conjunct2, THEN conjunct1, rule_format, OF gn]
  have n: "getCloseSec sampleHost Null = Inl TypeError" .
  from l g0 n0 g1 n1 r h0 m0 h1 m1 s gn n show ?thesis by (intro conjI)
qed

text \<open>
  C6 as stated fails: the resolver does not return for every trade record. With
  \<open>close_timestamp\<close> an object that has an own \<open>toString\<close> property, it throws
  although \<open>exit\<close> normalizes to \<open>1700000000\<close>; the trade \<open>null\<close> makes it throw too.
\<close>

theorem getCloseSec_raises_before_later_field:
  "toSec sampleHost (Num (Fin 1700000000)) = Inr (Some (Fin 1700000000))
   \<and> getCloseSec sampleHost
        (Obj [(''close_timestamp'', Obj [(''toString'', Num (Fin 1))]),
              (''exit'', Num (Fin 1700000000))]) = Inl TypeError
   \<and> getCloseSec sampleHost Null = Inl TypeError"
  by (simp add: getCloseSec_def toSecOf_def toSec_def isNullish_def)

lemma StringToNumber_12_5: "StringToNumber ''12.5'' = Fin (25 / 2)"
proof -
  have "StringToNumber ''12.5'' = fl (25 / 2)"
    by (simp add: StringToNumber_eval isDigit_def)
  also have "\<dots> = Fin (25 / 2)"
    by (subst fl_eval [where e = 3]) (simp_all add: pow2_def roundTiesToEven_def Let_def)
  finally show ?thesis .
qed

text \<open>
  C5. The PnL resolver probes \<open>real_profit_loss\<close>, \<open>real_net_profit_loss\<close>,
  \<open>real_net_pnl\<close>, \<open>real_pnl\<close> in that order and returns what the first field
  that offers a value offers (a number as it is, another present value coerced when
  the coercion is finite), absent if none does. A trade with \<open>real_profit_loss: 5\<close>
  and \<open>real_net_pnl: 999\<close> resolves to \<open>5\<close>; one with \<open>real_profit_loss: null\<close> and
  \<open>real_net_profit_loss: "12.5"\<close> resolves to \<open>12.5\<close>.
\<close>

theorem getPL_priority_order:
  "(\<forall>i < length plFields.
      (\<forall>j < i. plCandidate h t (plFields ! j) = Inr None) \<longrightarrow>
      plCandidate h t (plFields ! i) = Inr (Some x) \<longrightarrow>
      getPL h t = Inr (Some x))
   \<and> ((\<forall>j < length plFields. plCandidate h t (plFields ! j) = Inr None) \<longrightarrow>
        getPL h t = Inr None)
   \<and> getPL h (Obj [(''real_profit_loss'', Num (Fin 5)), (''real_net_pnl'', Num (Fin 999))])
       = Inr (Some (Fin 5))
   \<and> getPL h (Obj [(''real_profit_loss'', Null), (''real_net_profit_loss'', Str ''12.5'')])
       = Inr (Some (Fin (25 / 2)))"
proof (intro conjI allI impI)
  fix i
  assume "i < length plFields"
    and "\<forall>j < i. plCandidate h t (plFields ! j) = Inr None"
    and "plCandidate h t (plFields ! i) = Inr (Some x)"
  then show "getPL h t = Inr (Some x)"
    unfolding getPL_firstResolved
    by (intro firstResolved_nth [of i]) simp_all
next
  assume "\<forall>j < length plFields. plCandidate h t (plFields ! j) = Inr None"
  then show "getPL h t = Inr None"
    unfolding getPL_firstResolved
    by (intro firstResolved_all_None) simp
next
  show "getPL h (Obj [(''real_profit_loss'', Num (Fin 5)), (''real_net_pnl'', Num (Fin 999))])
       = Inr (Some (Fin 5))"
    by (simp add: getPL_def plField_def)
next
  show "getPL h (Obj [(''real_profit_loss'', Null), (''real_net_profit_loss'', Str ''12.5'')])
       = Inr (Some (Fin (25 / 2)))"
    by (simp add: getPL_def plField_def isNullish_def StringToNumber_12_5)
qed

theorem getPL_priority_order_witness:
  "(1::nat) < length plFields
   \<and> plCandidate sampleHost
         (Obj [(''real_profit_loss'', Str ''n/a''), (''real_net_profit_loss'', Str ''12.5''),
               (''real_pnl'', Num (Fin 7))])
         (plFields ! 0) = Inr None
   \<and> plCandidate sampleHost
         (Obj [(''real_profit_loss'', Str ''n/a''), (''real_net_profit_loss'', Str ''12.5''),
               (''real_pnl'', Num (Fin 7))])
         (plFields ! 1) = Inr (Some (Fin (25 / 2)))
   \<and> getPL sampleHost
         (Obj [(''real_profit_loss'', Str ''n/a''), (''real_net_profit_loss'', Str ''12.5''),
               (''real_pnl'', Num (Fin 7))])
       = Inr (Some (Fin (25 / 2)))"
proof -
  let ?t = "Obj [(''real_profit_loss'', Str ''n/a''), (''real_net_profit_loss'', Str ''12.5''),
               (''real_pnl'', Num (Fin 7))]"
  have na: "StringToNumber ''n/a'' = NaN"
    by (simp add: StringToNumber_eval isDigit_def)
  have l: "(1::nat) < length plFields" by (simp add: plFields_def)
  have a0: "plCandidate sampleHost ?t (plFields ! 0) = Inr None"
    by (simp add: plFields_def plCandidate_def isNullish_def na)
  then have a: "\<forall>j < 1. plCandidate sampleHost ?t (plFields ! j) = Inr None"
    by simp
  have b: "plCandidate sampleHost ?t (plFields ! 1) = Inr (Some (Fin (25 / 2)))"
    by (simp add: plFields_def plCandidate_def isNullish_def StringToNumber_12_5)
  from getPL_priority_order [of sampleHost ?t "Fin (25 / 2)"]
  have "\<forall>i < length plFields.
      (\<forall>j < i. plCandidate sampleHost ?t (plFields ! j) = Inr None) \<longrightarrow>
      plCandidate sampleHost ?t (plFields ! i) = Inr (Some (Fin (25 / 2))) \<longrightarrow>
      getPL sampleHost ?t = Inr (Some (Fin (25 / 2)))"
    by (rule conjunct1)
  with l a0 a b show ?thesis by blast
qed

section \<open>A close time outside the range of dates\<close>

lemma tradeLoop_fails:
  assumes "t \<in> set ts" and "\<And>m. \<exists>e. tradeStep h m t = Inl e"
  shows "\<exists>e. tradeLoop h m ts = Inl e"
  using assms(1)
proof (induction ts arbitrary: m)
  case Nil
  then show ?case by simp
next
  case (Cons a ts)
  show ?case
  proof (cases "tradeStep h m a")
    case (Inl e)
    then show ?thesis by simp
  next
    case (Inr m')
    have "a \<noteq> t" using Inr assms(2) [of m] by auto
    with Cons.prems have "t \<in> set ts" by simp
    from Cons.IH [OF this, of m'] Inr show ?thesis by simp
  qed
qed

lemma tradeStep_invalid_date:
  assumes "getCloseSec h t = Inr (Some c)" "isFinite c"
    and "getPL h t = Inr (Some p)" "isFinite p"
    and "newDate (js_mul c (Fin 1000)) = None"
  shows "tradeStep h m t = Inl RangeError"
  using assms by (simp add: tradeStep_def)

lemma fl_minus_1e16: "fl (- 10000000000000000) = Fin (- 10000000000000000)"
  by (subst fl_eval [where e = 53]) (simp_all add: pow2_def roundTiesToEven_def Let_def)

lemma farPastTrade_close: "getCloseSec h farPastTrade = Inr (Some (Fin (- 10000000000000)))"
  by (simp add: farPastTrade_def getCloseSec_def toSecOf_def toSec_def isNullish_def)

lemma farPastTrade_pl: "getPL h farPastTrade = Inr (Some (Fin 1))"
  by (simp add: farPastTrade_def getPL_def plField_def)

lemma farPastTrade_date: "newDate (js_mul (Fin (- 10000000000000)) (Fin 1000)) = None"
  by (simp add: fl_minus_1e16)

lemma farPastTrade_step: "tradeStep h m farPastTrade = Inl RangeError"
  by (rule tradeStep_invalid_date [OF farPastTrade_close _ farPastTrade_pl _ farPastTrade_date])
    simp_all

lemma symbolTask_bad_trade:
  assumes "ok res" "json res = Inr j" "getProp j ''trades'' = Inr (Arr ts)" "t \<in> set ts"
    and "\<And>m. \<exists>e. tradeStep h m t = Inl e"
  shows "\<exists>e. symbolTask h m (Inr res) = Inl e"
  using assms(1-3) tradeLoop_fails [OF assms(4,5), of m] by (simp add: symbolTask_def)

text \<open>
  C10. There is a trade whose close time resolves to a finite Number that no date can
  hold: \<open>close_timestamp: -10^13\<close> passes through \<open>toSec\<close> as seconds, and times
  \<open>1000\<close> it is below \<open>-8.64e15\<close>. With a finite PnL the loop reaches
  \<open>toISOString\<close>, which throws a \<open>RangeError\<close>; any cycle in which a successful
  response carries this trade leaves the points as they were and, unless cancelled,
  shows an error, instead of passing over the one trade.
\<close>

theorem out_of_range_timestamp_fails_cycle:
  "getCloseSec h farPastTrade = Inr (Some (Fin (- 10000000000000)))
   \<and> isFinite (Fin (- 10000000000000))
   \<and> newDate (js_mul (Fin (- 10000000000000)) (Fin 1000)) = None
   \<and> tradeStep h m farPastTrade = Inl RangeError
   \<and> (\<forall>res j ts. Inr res \<in> set outs \<longrightarrow> ok res \<longrightarrow> json res = Inr j \<longrightarrow>
         getProp j ''trades'' = Inr (Arr ts) \<longrightarrow> farPastTrade \<in> set ts \<longrightarrow>
         points (fetchAll h startingBalance cancelled outs u) = points u
         \<and> (\<not> cancelled \<longrightarrow> err (fetchAll h startingBalance cancelled outs u) \<noteq> []))"
proof (intro conjI allI impI)
  show "getCloseSec h farPastTrade = Inr (Some (Fin (- 10000000000000)))"
    by (rule farPastTrade_close)
  show "isFinite (Fin (- 10000000000000))" by simp
  show "newDate (js_mul (Fin (- 10000000000000)) (Fin 1000)) = None"
    by (rule farPastTrade_date)
  show "tradeStep h m farPastTrade = Inl RangeError" by (rule farPastTrade_step)
next
  fix res j ts
  assume a: "Inr res \<in> set outs" "ok res" "json res = Inr j"
    "getProp j ''trades'' = Inr (Arr ts)" "farPastTrade \<in> set ts"
  have "\<And>m. \<exists>e. symbolTask h m (Inr res) = Inl e"
    using symbolTask_bad_trade [OF a(2-5)] farPastTrade_step by blast
  from allSymbols_fails [OF a(1) this]
  obtain e where e: "allSymbols h [] outs = Inl e" by blast
  show "points (fetchAll h startingBalance cancelled outs u) = points u"
    by (rule fetchAll_on_failure(1) [OF e])
  assume "\<not> cancelled"
  then show "err (fetchAll h startingBalance cancelled outs u) \<noteq> []"
    by (rule fetchAll_on_failure(2) [OF e])
qed

theorem out_of_range_timestamp_fails_cycle_witness:
  "Inr \<lparr>ok = True, status = 200, statusText = ''OK'',
         json = Inr (Obj [(''trades'', Arr [farPastTrade])])\<rparr>
     \<in> set [Inr \<lparr>ok = True, status = 200, statusText = ''OK'',
                  json = Inr (Obj [(''trades'', Arr [farPastTrade])])\<rparr> :: jserror + response]
   \<and> getProp (Obj [(''trades'', Arr [farPastTrade])]) ''trades'' = Inr (Arr [farPastTrade])
   \<and> farPastTrade \<in> set [farPastTrade]
   \<and> points (fetchAll sampleHost (Fin 1000) False
        [Inr \<lparr>ok = True, status = 200, statusText = ''OK'',
               json = Inr (Obj [(''trades'', Arr [farPastTrade])])\<rparr>]
        \<lparr>points = [], loading = False, err = []\<rparr>) = []
   \<and> err (fetchAll sampleHost (Fin 1000) False
        [Inr \<lparr>ok = True, status = 200, statusText = ''OK'',
               json = Inr (Obj [(''trades'', Arr [farPastTrade])])\<rparr>]
        \<lparr>points = [], loading = False, err = []\<rparr>) \<noteq> []"
proof -
  let ?res = "\<lparr>ok = True, status = 200, statusText = ''OK'',
         json = Inr (Obj [(''trades'', Arr [farPastTrade])])\<rparr>"
  let ?u = "\<lparr>points = [], loading = False, err = []\<rparr>"
  have g: "getProp (Obj [(''trades'', Arr [farPastTrade])]) ''trades'' = Inr (Arr [farPastTrade])"
    by simp
  note t = out_of_range_timestamp_fails_cycle
    [of sampleHost "[]" "[Inr ?res]" "Fin 1000" False ?u]
  from t [THEN conjunct2, THEN conjunct2, THEN conjunct2, THEN conjunct2, rule_format,
      of ?res "Obj [(''trades'', Arr [farPastTrade])]" "[farPastTrade]"] g
  show ?thesis by simp
qed

section \<open>Responses without a trades array\<close>

lemma getProp_not_nullish: "\<not> isNullish j \<Longrightarrow> getProp j k \<noteq> Inl e"
  by (cases j) (simp_all add: isNullish_def)

lemma symbolTask_noTradesArray: "noTradesArray out \<Longrightarrow> symbolTask h m out = Inr m"
  by (auto simp: noTradesArray_def symbolTask_def getProp_not_nullish
      split: sum.splits jsval.splits)

lemma allSymbols_append:
  "allSymbols h m (xs @ ys) =
     (case allSymbols h m xs of Inl e \<Rightarrow> Inl e | Inr m' \<Rightarrow> allSymbols h m' ys)"
  by (induction xs arbitrary: m) (auto split: sum.splits)

text \<open>
  C9, as the code has it. A successful response whose body parsed to a value other
  than \<open>null\<close> and whose \<open>trades\<close> is missing or not an array adds no trade: its
  callback leaves \<open>dailyPL\<close> as it is, the cycle runs as if that symbol had not been
  asked for, and a cycle of that response alone commits no point and no error.
\<close>

theorem response_without_trades_array_is_empty:
  assumes "noTradesArray out"
  shows "symbolTask h m out = Inr m
         \<and> allSymbols h m (xs @ out # ys) = allSymbols h m (xs @ ys)
         \<and> fetchAll h startingBalance cancelled (xs @ out # ys) u =
             fetchAll h startingBalance cancelled (xs @ ys) u
         \<and> fetchAll h startingBalance False [out] u = \<lparr>points = [], loading = False, err = []\<rparr>"
proof -
  have s: "\<And>m. symbolTask h m out = Inr m"
    by (rule symbolTask_noTradesArray [OF assms])
  have a: "\<And>m. allSymbols h m (xs @ out # ys) = allSymbols h m (xs @ ys)"
    by (simp add: allSymbols_append s split: sum.splits)
  have f: "fetchAll h startingBalance cancelled (xs @ out # ys) u =
             fetchAll h startingBalance cancelled (xs @ ys) u"
    by (simp add: fetchAll_def a)
  have "fetchAll h startingBalance False [out] u = \<lparr>points = [], loading = False, err = []\<rparr>"
    by (simp add: fetchAll_def s buildCurve_def)
  with s a f show ?thesis by blast
qed

theorem response_without_trades_array_is_empty_witness:
  "noTradesArray (Inr \<lparr>ok = True, status = 200, statusText = ''OK'',
                        json = Inr (Obj [(''trades'', Str ''none'')])\<rparr>)
   \<and> fetchAll sampleHost (Fin 1000) False
        [Inr \<lparr>ok = True, status = 200, statusText = ''OK'',
               json = Inr (Obj [(''trades'', Str ''none'')])\<rparr>]
        \<lparr>points = [\<lparr>date = ''2023-11-13'', equity = Fin 990\<rparr>], loading = False, err = ''x''\<rparr>
      = \<lparr>points = [], loading = False, err = []\<rparr>"
proof -
  let ?out = "Inr \<lparr>ok = True, status = 200, statusText = ''OK'',
                        json = Inr (Obj [(''trades'', Str ''none'')])\<rparr> :: jserror + response"
  have n: "noTradesArray ?out" by (simp add: noTradesArray_def isNullish_def)
  from response_without_trades_array_is_empty [OF n] n show ?thesis by blast
qed

text \<open>
  C9 as stated fails: a successful response whose body is not valid JSON makes
  \<open>res.json()\<close> reject, and a body that parses to \<open>null\<close> makes \<open>json.trades\<close>
  throw; either way the cycle ends with an error shown.
\<close>

theorem invalid_body_reports_error:
  "err (fetchAll sampleHost (Fin 1000) False
        [Inr \<lparr>ok = True, status = 200, statusText = ''OK'',
               json = Inl (Failure ''Unexpected token < in JSON at position 0'')\<rparr>]
        \<lparr>points = [], loading = False, err = []\<rparr>)
     = ''Unexpected token < in JSON at position 0''
   \<and> err (fetchAll sampleHost (Fin 1000) False
        [Inr \<lparr>ok = True, status = 200, statusText = ''OK'', json = Inr Null\<rparr>]
        \<lparr>points = [], loading = False, err = []\<rparr>)
     = ''Cannot read properties of null''"
  by (simp add: fetchAll_def symbolTask_def sampleHost_def)

section \<open>Trades the loop passes over\<close>

lemma map_of_setKey: "map_of (setKey m k v) = (map_of m)(k \<mapsto> v)"
  by (induction m) auto



section \<open>What the timestamp normalizer returns\<close>

lemma digit_not_space: "isDigit c \<Longrightarrow> \<not> isStrWhiteSpace c"
  by (auto simp: isDigit_def isStrWhiteSpace_def)

lemma digitVal_bounds: "isDigit c \<Longrightarrow> 0 \<le> digitVal c \<and> digitVal c \<le> 9"
  by (auto simp: isDigit_def digitVal_def)

lemma trim_digits:
  assumes "list_all isDigit s"
  shows "trim s = s"
proof (cases "s = []")
  case True
  then show ?thesis by (simp add: trim_def)
next
  case False
  from assms False have "isDigit (hd s)" "isDigit (last s)"
    by (simp_all add: list_all_iff)
  then have a: "\<not> isStrWhiteSpace (hd s)" and b: "\<not> isStrWhiteSpace (hd (rev s))"
    by (simp_all add: digit_not_space hd_rev)
  from a have "dropWhile isStrWhiteSpace s = s" by (simp add: dropWhile_eq_self_iff)
  moreover from b have "dropWhile isStrWhiteSpace (rev s) = rev s"
    by (simp add: dropWhile_eq_self_iff)
  ultimately show ?thesis by (simp add: trim_def)
qed

lemma nonDecimal_digits:
  assumes "list_all isDigit s"
  shows "nonDecimal s = None"
proof (cases s)
  case Nil
  then show ?thesis by (simp add: nonDecimal_def)
next
  case (Cons z r)
  show ?thesis
  proof (cases r)
    case Nil
    with Cons show ?thesis by (simp add: nonDecimal_def)
  next
    case (Cons x ds)
    with assms \<open>s = z # r\<close> have "isDigit x" by simp
    then have "x \<notin> set ''xX''" "x \<notin> set ''oO''" "x \<notin> set ''bB''"
      by (auto simp: isDigit_def)
    with Cons \<open>s = z # r\<close> show ?thesis by (simp add: nonDecimal_def)
  qed
qed

lemma unsignedDecimal_digits:
  assumes "list_all isDigit s" and "s \<noteq> []"
  shows "unsignedDecimal s = Some (of_int (digitsVal 10 s))"
proof -
  from assms(1) have t: "takeWhile isDigit s = s" and d: "dropWhile isDigit s = []"
    by (simp_all add: list_all_iff)
  show ?thesis
    using assms(2) by (simp add: unsignedDecimal_def t d exponentPart_def pow10_def)
qed

lemma StringToNumber_digits:
  assumes "list_all isDigit s" and "s \<noteq> []"
  shows "StringToNumber s = fl (of_int (digitsVal 10 s))"
proof -
  from assms have h: "isDigit (hd s)" by (cases s) simp_all
  then have sign: "hd s \<noteq> CHR ''-''" "hd s \<noteq> CHR ''+''"
    by (auto simp: isDigit_def)
  have "hd s \<noteq> CHR ''I''" using h by (auto simp: isDigit_def)
  then have inf: "s \<noteq> ''Infinity''" by auto
  show ?thesis
    using assms(2) sign inf
    by (simp add: StringToNumber_def trim_digits [OF assms(1)] nonDecimal_digits [OF assms(1)]
        unsignedDecimal_digits [OF assms])
qed

lemma digits_foldl_bounds:
  "list_all isDigit s \<Longrightarrow> 0 \<le> a \<Longrightarrow>
   0 \<le> foldl (\<lambda>a c. 10 * a + digitVal c) a s
   \<and> foldl (\<lambda>a c. 10 * a + digitVal c) a s < (a + 1) * 10 ^ length s"
proof (induction s arbitrary: a)
  case Nil
  then show ?case by simp
next
  case (Cons c s)
  define a' where "a' = 10 * a + digitVal c"
  from Cons.prems have c: "0 \<le> digitVal c" "digitVal c \<le> 9"
    using digitVal_bounds [of c] by simp_all
  with Cons.prems have a': "0 \<le> a'" "a' + 1 \<le> 10 * (a + 1)" by (simp_all add: a'_def)
  from Cons.prems have "list_all isDigit s" by simp
  from Cons.IH [OF this a'(1)]
  have ih: "0 \<le> foldl (\<lambda>a c. 10 * a + digitVal c) a' s"
    "foldl (\<lambda>a c. 10 * a + digitVal c) a' s < (a' + 1) * 10 ^ length s" by simp_all
  have "foldl (\<lambda>a c. 10 * a + digitVal c) a' s < (a' + 1) * 10 ^ length s"
    by (rule ih(2))
  also have "\<dots> \<le> (10 * (a + 1)) * 10 ^ length s"
    using a'(2) by (intro mult_right_mono) simp_all
  also have "\<dots> = (a + 1) * 10 ^ length (c # s)" by simp
  finally have "foldl (\<lambda>a c. 10 * a + digitVal c) a' s < (a + 1) * 10 ^ length (c # s)" .
  with ih(1) show ?case unfolding a'_def foldl_Cons by blast
qed

lemma digitsVal_bounds:
  "list_all isDigit s \<Longrightarrow> 0 \<le> digitsVal 10 s \<and> digitsVal 10 s < 10 ^ length s"
  using digits_foldl_bounds [of s 0] by (simp add: digitsVal_def)

lemma StringToNumber_isDigits:
  assumes "isDigits n s" and "0 < n" and "n \<le> 15"
  shows "StringToNumber s = Fin (of_int (digitsVal 10 s))"
    and "0 \<le> digitsVal 10 s" and "digitsVal 10 s < 10 ^ 15"
proof -
  from assms(1) have d: "list_all isDigit s" and l: "length s = n"
    by (simp_all add: isDigits_def)
  from l assms(2) have ne: "s \<noteq> []" by auto
  from digitsVal_bounds [OF d]
  have b: "0 \<le> digitsVal 10 s" "digitsVal 10 s < 10 ^ n" by (simp_all add: l)
  have "(10::int) ^ n \<le> 10 ^ 15" using assms(3) by (intro power_increasing) simp_all
  with b show "0 \<le> digitsVal 10 s" "digitsVal 10 s < 10 ^ 15" by simp_all
  then have "\<bar>digitsVal 10 s\<bar> \<le> 2 ^ 53" by simp
  from fl_int [OF this] StringToNumber_digits [OF d ne]
  show "StringToNumber s = Fin (of_int (digitsVal 10 s))" by simp
qed

lemma roundTiesToEven_near:
  "of_int (roundTiesToEven y) \<le> y + 1" "y - 1 \<le> of_int (roundTiesToEven y)"
  "0 \<le> y \<Longrightarrow> 0 \<le> roundTiesToEven y" "y \<le> 0 \<Longrightarrow> roundTiesToEven y \<le> 0"
proof -
  have f: "of_int \<lfloor>y\<rfloor> \<le> y" "y < of_int \<lfloor>y\<rfloor> + 1" by linarith+
  have c: "roundTiesToEven y = \<lfloor>y\<rfloor> \<or> roundTiesToEven y = \<lfloor>y\<rfloor> + 1"
    by (simp add: roundTiesToEven_def Let_def)
  show "of_int (roundTiesToEven y) \<le> y + 1"
  proof (rule disjE [OF c])
    assume "roundTiesToEven y = \<lfloor>y\<rfloor>"
    then have "(of_int (roundTiesToEven y) :: rat) = of_int \<lfloor>y\<rfloor>" by simp
    with f(1) show ?thesis by linarith
  next
    assume "roundTiesToEven y = \<lfloor>y\<rfloor> + 1"
    then have "(of_int (roundTiesToEven y) :: rat) = of_int \<lfloor>y\<rfloor> + 1" by simp
    with f(1) show ?thesis by linarith
  qed
  show "y - 1 \<le> of_int (roundTiesToEven y)"
  proof (rule disjE [OF c])
    assume "roundTiesToEven y = \<lfloor>y\<rfloor>"
    then have "(of_int (roundTiesToEven y) :: rat) = of_int \<lfloor>y\<rfloor>" by simp
    with f(2) show ?thesis by linarith
  next
    assume "roundTiesToEven y = \<lfloor>y\<rfloor> + 1"
    then have "(of_int (roundTiesToEven y) :: rat) = of_int \<lfloor>y\<rfloor> + 1" by simp
    with f(2) show ?thesis by linarith
  qed
  show "0 \<le> roundTiesToEven y" if "0 \<le> y"
  proof -
    from that have "0 \<le> \<lfloor>y\<rfloor>" by simp
    with c show ?thesis by (elim disjE) linarith+
  qed
  show "roundTiesToEven y \<le> 0" if "y \<le> 0"
  proof (cases "y = of_int \<lfloor>y\<rfloor>")
    case True
    then have "roundTiesToEven y = \<lfloor>y\<rfloor>" by (simp add: roundTiesToEven_def Let_def)
    with that show ?thesis by simp
  next
    case False
    with f(1) have "of_int \<lfloor>y\<rfloor> < y" by linarith
    with that have "(of_int \<lfloor>y\<rfloor> :: rat) < 0" by linarith
    then have "\<lfloor>y\<rfloor> < 0" by (simp only: of_int_less_0_iff)
    with c show ?thesis by (elim disjE) linarith+
  qed
qed

lemma fl_cases: "fl x = PInf \<or> fl x = NInf \<or> (\<exists>r. fl x = Fin r)"
  by (simp add: fl_def Let_def)

lemma fl_nonneg: "0 \<le> x \<Longrightarrow> fl x \<noteq> NInf"
proof -
  assume x: "0 \<le> x"
  define q where "q = pow2 (max (exponent x) (- 1022) - 52)"
  have "0 \<le> x / q" using x by (simp add: q_def)
  then have "0 \<le> roundTiesToEven (x / q)" by (rule roundTiesToEven_near(3))
  then have "0 \<le> (of_int (roundTiesToEven (x / q)) :: rat) * q" by (simp add: q_def)
  moreover have "- pow2 1024 < 0" by simp
  ultimately have "\<not> of_int (roundTiesToEven (x / q)) * q \<le> - pow2 1024" by linarith
  then show ?thesis by (simp add: fl_def Let_def q_def)
qed

lemma fl_finite:
  assumes "\<bar>x\<bar> < pow2 1023"
  shows "\<exists>r. fl x = Fin r"
proof (cases "x = 0")
  case True
  then show ?thesis by (simp add: fl_def)
next
  case False
  define E where "E = max (exponent x) (- 1022)"
  define q where "q = pow2 (E - 52)"
  define n where "n = roundTiesToEven (x / q)"
  from exponent_bounds [OF False] have "pow2 (exponent x) \<le> \<bar>x\<bar>" by simp
  with assms have "pow2 (exponent x) < pow2 1023" by simp
  then have "exponent x < 1023"
    using pow2_mono [of 1023 "exponent x"] by (cases "exponent x < 1023") auto
  then have E: "E \<le> 1022" by (simp add: E_def)
  have q0: "0 < q" by (simp add: q_def)
  have "q \<le> pow2 1023" unfolding q_def using E by (intro pow2_mono) simp
  have up: "of_int n * q \<le> x + q"
  proof -
    have "of_int n \<le> x / q + 1" unfolding n_def by (rule roundTiesToEven_near(1))
    then have "of_int n * q \<le> (x / q + 1) * q"
      using q0 by (intro mult_right_mono) simp_all
    also have "\<dots> = x + q" using q0 by (simp add: field_simps)
    finally show ?thesis .
  qed
  have lo: "x - q \<le> of_int n * q"
  proof -
    have "x / q - 1 \<le> of_int n" unfolding n_def by (rule roundTiesToEven_near(2))
    then have "(x / q - 1) * q \<le> of_int n * q"
      using q0 by (intro mult_right_mono) simp_all
    moreover have "(x / q - 1) * q = x - q" using q0 by (simp add: field_simps)
    ultimately show ?thesis by simp
  qed
  have p: "pow2 1024 = 2 * pow2 1023" using pow2_Suc [of 1023] by simp
  from assms have "x < pow2 1023" "- pow2 1023 < x" by linarith+
  with up lo \<open>q \<le> pow2 1023\<close> p
  have "\<not> pow2 1024 \<le> of_int n * q" "\<not> of_int n * q \<le> - pow2 1024" by linarith+
  then show ?thesis
    using False by (simp add: fl_def Let_def n_def q_def E_def)
qed

lemma pow2_1023_large: "2 ^ 60 < pow2 1023"
proof -
  have "pow2 60 < pow2 1023" by (rule pow2_strict_mono) simp
  then show ?thesis by (simp add: pow2_def)
qed

lemma floor_div1000_integer:
  assumes "\<bar>x\<bar> \<le> 10 ^ 16"
  shows "isInteger (js_floor (js_div (Fin x) (Fin 1000)))"
proof -
  have "\<bar>x / 1000\<bar> \<le> 10 ^ 16" using assms by simp
  also have "(10::rat) ^ 16 < 2 ^ 60" by simp
  finally have "\<bar>x / 1000\<bar> < pow2 1023" using pow2_1023_large by linarith
  from fl_finite [OF this] obtain r where "fl (x / 1000) = Fin r" by blast
  then show ?thesis by simp
qed

lemma newDate_Some_bound:
  "newDate n = Some tv \<Longrightarrow> \<bar>tv\<bar> \<le> 8640000000000000"
proof (cases n)
  case (Fin x)
  assume "newDate n = Some tv"
  with Fin have b: "\<bar>x\<bar> \<le> 8640000000000000"
    and tv: "tv = (if 0 \<le> x then \<lfloor>x\<rfloor> else - \<lfloor>- x\<rfloor>)"
    by (auto split: if_splits)
  show ?thesis
  proof (cases "0 \<le> x")
    case True
    with tv have "tv = \<lfloor>x\<rfloor>" by simp
    moreover have "0 \<le> \<lfloor>x\<rfloor>" using True by simp
    moreover have "\<lfloor>x\<rfloor> \<le> 8640000000000000"
      using b True by (simp add: floor_le_iff)
    ultimately show ?thesis by simp
  next
    case False
    with tv have "tv = - \<lfloor>- x\<rfloor>" by simp
    moreover have "0 \<le> \<lfloor>- x\<rfloor>" using False by simp
    moreover have "\<lfloor>- x\<rfloor> \<le> 8640000000000000"
      using b False by (simp add: floor_le_iff)
    ultimately show ?thesis by simp
  qed
qed simp_all

lemma toSec_Num:
  "toSec h (Num x) =
     Inr (Some (if js_gt x (Fin 2000000000000) then js_floor (js_div x (Fin 1000)) else x))"
  by (simp add: toSec_def isNullish_def)

lemma toSec_not_Num:
  assumes "\<forall>y. v \<noteq> Num y" and "\<not> isNullish v"
  shows "toSec h v =
     (case ToString h v of
        Inl e \<Rightarrow> Inl e
      | Inr s \<Rightarrow>
          if isDigits 13 s
          then Inr (Some (js_floor (js_div (StringToNumber s) (Fin 1000))))
          else if isDigits 10 s then Inr (Some (StringToNumber s))
          else let t = getTime (newDate (dateParse h s))
               in Inr (if isFinite t then Some (js_floor (js_div t (Fin 1000))) else None))"
  using assms by (cases v) (simp_all add: toSec_def)

lemma toSec_of_string:
  assumes "\<forall>y. v \<noteq> Num y" and "ToString h v = Inr s"
  shows "toSec h v = Inr None \<or> (\<exists>n. toSec h v = Inr (Some n) \<and> isInteger n)"
proof (cases "isNullish v")
  case True
  then show ?thesis by (simp add: toSec_def)
next
  case False
  note eq = toSec_not_Num [OF assms(1) False, of h]
  show ?thesis
  proof (cases "isDigits 13 s")
    case True
    from StringToNumber_isDigits [OF True]
    have n: "StringToNumber s = Fin (of_int (digitsVal 10 s))"
      and b: "0 \<le> digitsVal 10 s" "digitsVal 10 s < 10 ^ 15" by simp_all
    from b have "\<bar>digitsVal 10 s\<bar> \<le> 10 ^ 16" by simp
    then have "\<bar>(of_int (digitsVal 10 s) :: rat)\<bar> \<le> of_int (10 ^ 16)"
      by (simp only: of_int_abs [symmetric] of_int_le_iff)
    then have "\<bar>(of_int (digitsVal 10 s) :: rat)\<bar> \<le> 10 ^ 16" by simp
    from floor_div1000_integer [OF this] True n show ?thesis
      by (simp add: eq assms(2))
  next
    case not13: False
    show ?thesis
    proof (cases "isDigits 10 s")
      case True
      from StringToNumber_isDigits(1) [OF True]
      have "StringToNumber s = Fin (of_int (digitsVal 10 s))" by simp
      with True not13 show ?thesis by (simp add: eq assms(2))
    next
      case False
      show ?thesis
      proof (cases "newDate (dateParse h s)")
        case None
        with False not13 show ?thesis by (simp add: eq assms(2))
      next
        case (Some tv)
        from newDate_Some_bound [OF Some] have "\<bar>tv\<bar> \<le> 10 ^ 16" by simp
        then have "\<bar>(of_int tv :: rat)\<bar> \<le> of_int (10 ^ 16)"
          by (simp only: of_int_abs [symmetric] of_int_le_iff)
        then have "\<bar>(of_int tv :: rat)\<bar> \<le> 10 ^ 16" by simp
        from floor_div1000_integer [OF this] Some False not13 show ?thesis
          by (simp add: eq assms(2))
      qed
    qed
  qed
qed

lemma toSec_ms_branch:
  assumes "js_gt x (Fin 2000000000000)"
  shows "isInteger (js_floor (js_div x (Fin 1000))) \<or> js_floor (js_div x (Fin 1000)) = PInf"
proof (cases x)
  case (Fin a)
  with assms have "0 \<le> a / 1000" by simp
  from fl_nonneg [OF this] fl_cases [of "a / 1000"] Fin show ?thesis by auto
qed (use assms in simp_all)

lemma ToString_primitive: "isPrimitive v \<Longrightarrow> \<exists>s. ToString h v = Inr s"
  by (cases v) (simp_all add: isPrimitive_def)

text \<open>
  C4, as the code has it. A number is never rejected: \<open>toSec\<close> returns it unchanged
  when it is not above \<open>2000000000000\<close> (so \<open>NaN\<close>, \<open>-Infinity\<close> and fractions come
  back as they are) and floored after division by \<open>1000\<close> otherwise, an integer or
  \<open>+Infinity\<close>. Any other input whose conversion to a string succeeds yields absent
  or an integer, absent when it is no run of 10 or 13 digits and \<open>Date.parse\<close> does
  not read it. No primitive input makes \<open>toSec\<close> throw; an input whose conversion to a
  string throws makes \<open>toSec\<close> throw the same.
\<close>

theorem toSec_number_or_absent:
  "toSec h (Num x) =
     Inr (Some (if js_gt x (Fin 2000000000000) then js_floor (js_div x (Fin 1000)) else x))
   \<and> (js_gt x (Fin 2000000000000) \<longrightarrow>
        isInteger (js_floor (js_div x (Fin 1000))) \<or> js_floor (js_div x (Fin 1000)) = PInf)
   \<and> ((\<forall>y. v \<noteq> Num y) \<longrightarrow> ToString h v = Inr s \<longrightarrow>
        toSec h v = Inr None \<or> (\<exists>n. toSec h v = Inr (Some n) \<and> isInteger n))
   \<and> (isPrimitive v \<longrightarrow> (\<exists>r. toSec h v = Inr r))
   \<and> (\<not> isNullish v \<longrightarrow> (\<forall>y. v \<noteq> Num y) \<longrightarrow> ToString h v = Inl e \<longrightarrow> toSec h v = Inl e)
   \<and> (\<not> isDigits 13 str \<longrightarrow> \<not> isDigits 10 str \<longrightarrow> dateParse h str = NaN \<longrightarrow>
        toSec h (Str str) = Inr None)"
proof (intro conjI impI)
  assume "\<not> isDigits 13 str" "\<not> isDigits 10 str" "dateParse h str = NaN"
  then show "toSec h (Str str) = Inr None"
    by (simp add: toSec_def isNullish_def)
next
  show "toSec h (Num x) =
     Inr (Some (if js_gt x (Fin 2000000000000) then js_floor (js_div x (Fin 1000)) else x))"
    by (rule toSec_Num)
next
  assume "js_gt x (Fin 2000000000000)"
  then show "isInteger (js_floor (js_div x (Fin 1000))) \<or> js_floor (js_div x (Fin 1000)) = PInf"
    by (rule toSec_ms_branch)
next
  assume "\<forall>y. v \<noteq> Num y" "ToString h v = Inr s"
  then show "toSec h v = Inr None \<or> (\<exists>n. toSec h v = Inr (Some n) \<and> isInteger n)"
    by (rule toSec_of_string)
next
  assume p: "isPrimitive v"
  show "\<exists>r. toSec h v = Inr r"
  proof (cases "\<exists>y. v = Num y")
    case True
    then show ?thesis using toSec_Num by auto
  next
    case False
    from ToString_primitive [OF p] obtain s' where "ToString h v = Inr s'" by blast
    with False toSec_of_string [of v h s'] show ?thesis by auto
  qed
next
  assume "\<not> isNullish v" "\<forall>y. v \<noteq> Num y" "ToString h v = Inl e"
  then show "toSec h v = Inl e" by (simp add: toSec_not_Num)
qed

theorem toSec_number_or_absent_witness:
  "js_gt (Fin 2000000000001) (Fin 2000000000000)
   \<and> (isInteger (js_floor (js_div (Fin 2000000000001) (Fin 1000)))
        \<or> js_floor (js_div (Fin 2000000000001) (Fin 1000)) = PInf)
   \<and> ToString sampleHost (Str ''2023-11-14T22:13:20.000Z'') = Inr ''2023-11-14T22:13:20.000Z''
   \<and> isPrimitive (Str ''2023-11-14T22:13:20.000Z'')
   \<and> (\<exists>n. toSec sampleHost (Str ''2023-11-14T22:13:20.000Z'') = Inr (Some n) \<and> isInteger n)
   \<and> \<not> isNullish (Obj [(''toString'', Num (Fin 1))])
   \<and> ToString sampleHost (Obj [(''toString'', Num (Fin 1))]) = Inl TypeError
   \<and> toSec sampleHost (Obj [(''toString'', Num (Fin 1))]) = Inl TypeError
   \<and> dateParse sampleHost ''yesterday'' = NaN
   \<and> toSec sampleHost (Str ''yesterday'') = Inr None"
proof -
  let ?s = "''2023-11-14T22:13:20.000Z''"
  let ?o = "Obj [(''toString'', Num (Fin 1))]"
  note a = toSec_number_or_absent [of sampleHost "Fin 2000000000001" "Str ?s" ?s TypeError]
  note b = toSec_number_or_absent [of sampleHost "Fin 2000000000001" ?o ?s TypeError]
  have g: "js_gt (Fin 2000000000001) (Fin 2000000000000)" by simp
  have i: "isInteger (js_floor (js_div (Fin 2000000000001) (Fin 1000)))
        \<or> js_floor (js_div (Fin 2000000000001) (Fin 1000)) = PInf"
    using a [THEN conjunct2, THEN conjunct1] g by blast
  have t: "ToString sampleHost (Str ?s) = Inr ?s" by simp
  have p: "isPrimitive (Str ?s)" by (simp add: isPrimitive_def)
  have some: "toSec sampleHost (Str ?s) \<noteq> Inr None"
    by (simp add: toSec_def isNullish_def isDigits_def sampleHost_def)
  from a [THEN conjunct2, THEN conjunct2, THEN conjunct1] t some
  have n: "\<exists>n. toSec sampleHost (Str ?s) = Inr (Some n) \<and> isInteger n" by auto
  have nn: "\<not> isNullish ?o" by (simp add: isNullish_def)
  have te: "ToString sampleHost ?o = Inl TypeError" by simp
  from b [THEN conjunct2, THEN conjunct2, THEN conjunct2, THEN conjunct2, THEN conjunct1] nn te
  have e: "toSec sampleHost ?o = Inl TypeError" by simp
  have dp: "dateParse sampleHost ''yesterday'' = NaN" by (simp add: sampleHost_def)
  from toSec_number_or_absent [where h = sampleHost and str = "''yesterday''",
      THEN conjunct2, THEN conjunct2, THEN conjunct2, THEN conjunct2, THEN conjunct2] dp
  have y: "toSec sampleHost (Str ''yesterday'') = Inr None" by (simp add: isDigits_def)
  from g i t p n nn te e dp y show ?thesis by (intro conjI)
qed

text \<open>
  C4 as stated fails: \<open>NaN\<close> is returned, not absent; \<open>Infinity\<close> (what
  \<open>1e999\<close> in a body parses to) and \<open>1.5\<close> are returned though they are no
  integers; and an object with an own \<open>toString\<close> property, which a parsed body can
  hold, makes \<open>toSec\<close> throw.
\<close>

theorem toSec_passes_NaN_and_can_throw:
  "toSec sampleHost (Num NaN) = Inr (Some NaN)
   \<and> toSec sampleHost (Num PInf) = Inr (Some PInf)
   \<and> toSec sampleHost (Num (Fin (3 / 2))) = Inr (Some (Fin (3 / 2)))
   \<and> toSec sampleHost (Obj [(''toString'', Num (Fin 1))]) = Inl TypeError"
  by (simp add: toSec_def isNullish_def)

section \<open>Permuting the trades\<close>

lemma tradeStep_contribution:
  "tradeStep h m t =
     (case contribution h t of
        Inl e \<Rightarrow> Inl e
      | Inr None \<Rightarrow> Inr m
      | Inr (Some (d, p)) \<Rightarrow> Inr (setKey m d (js_add (orZero (map_of m d)) p)))"
  by (simp add: tradeStep_def contribution_def Let_def split: sum.splits option.splits)

lemma tradeLoop_ok_iff:
  "(\<exists>m'. tradeLoop h m ts = Inr m') \<longleftrightarrow> (\<forall>t \<in> set ts. \<exists>c. contribution h t = Inr c)"
proof (induction ts arbitrary: m)
  case Nil
  then show ?case by simp
next
  case (Cons t ts)
  show ?case
  proof (cases "contribution h t")
    case (Inl e)
    then show ?thesis by (auto simp: tradeStep_contribution)
  next
    case (Inr c)
    then obtain m1 where "tradeStep h m t = Inr m1"
      by (cases c) (auto simp: tradeStep_contribution)
    with Inr Cons.IH [of m1] show ?thesis by simp
  qed
qed

lemma setKey_keys: "fst ` set (setKey m k v) = insert k (fst ` set m)"
proof -
  have "dom (map_of (setKey m k v)) = insert k (dom (map_of m))"
    by (simp add: map_of_setKey)
  then show ?thesis by (simp add: dom_map_of_conv_image_fst)
qed

lemma tradeLoop_keys:
  "tradeLoop h m ts = Inr m' \<Longrightarrow>
   set (map fst m') =
     set (map fst m) \<union> {d. \<exists>t \<in> set ts. \<exists>p. contribution h t = Inr (Some (d, p))}"
proof (induction ts arbitrary: m)
  case Nil
  then show ?case by simp
next
  case (Cons t ts)
  show ?case
  proof (cases "contribution h t")
    case (Inl e)
    with Cons.prems show ?thesis by (simp add: tradeStep_contribution)
  next
    case (Inr c)
    show ?thesis
    proof (cases c)
      case None
      with Inr Cons.prems have "tradeLoop h m ts = Inr m'"
        by (simp add: tradeStep_contribution)
      from Cons.IH [OF this] Inr None show ?thesis by auto
    next
      case (Some dp)
      obtain d p where dp: "dp = (d, p)" by (cases dp)
      let ?m1 = "setKey m d (js_add (orZero (map_of m d)) p)"
      from Inr Some dp Cons.prems have "tradeLoop h ?m1 ts = Inr m'"
        by (simp add: tradeStep_contribution)
      from Cons.IH [OF this] Inr Some dp show ?thesis
        by (auto simp: setKey_keys)
    qed
  qed
qed

lemma bucketInt_Some: "map_of m d = Some (Fin (of_int k)) \<Longrightarrow> bucketInt m d = k"
  by (simp add: bucketInt_def)

lemma bucketInt_None: "map_of m d = None \<Longrightarrow> bucketInt m d = 0"
  by (simp add: bucketInt_def)

lemma tradeLoop_exact:
  assumes "tradeLoop h m ts = Inr m'"
    and "\<forall>d v. map_of m d = Some v \<longrightarrow> (\<exists>k. v = Fin (of_int k) \<and> \<bar>k\<bar> \<le> b)"
    and "list_all (plIntegral h) ts"
    and "0 \<le> b" and "b + sum_list (map (plSize h) ts) \<le> 2 ^ 53"
  shows "\<forall>d v. map_of m' d = Some v \<longrightarrow>
           v = Fin (of_int (bucketInt m d + sum_list (map (plInt h d) ts)))"
  using assms
proof (induction ts arbitrary: m b)
  case Nil
  show ?case
  proof (intro allI impI)
    fix d v assume v: "map_of m' d = Some v"
    from Nil.prems(1) have "m' = m" by simp
    with v Nil.prems(2) obtain k where k: "v = Fin (of_int k)" by blast
    with v \<open>m' = m\<close> have "bucketInt m d = k" by (simp add: bucketInt_Some)
    with k show "v = Fin (of_int (bucketInt m d + sum_list (map (plInt h d) [])))" by simp
  qed
next
  case (Cons t ts)
  note inv = Cons.prems(2)
  from Cons.prems(3) have int_t: "plIntegral h t" and int_ts: "list_all (plIntegral h) ts"
    by simp_all
  have size_nonneg: "0 \<le> plSize h t"
    by (simp add: plSize_def split: sum.splits option.splits prod.splits jsnum.splits)
  show ?case
  proof (cases "contribution h t")
    case (Inl e)
    with Cons.prems(1) show ?thesis by (simp add: tradeStep_contribution)
  next
    case (Inr c)
    show ?thesis
    proof (cases c)
      case None
      with Inr Cons.prems(1) have loop: "tradeLoop h m ts = Inr m'"
        by (simp add: tradeStep_contribution)
      from Inr None have z: "plSize h t = 0" "\<And>d. plInt h d t = 0"
        by (simp_all add: plSize_def plInt_def)
      from Cons.prems(5) z have "b + sum_list (map (plSize h) ts) \<le> 2 ^ 53" by simp
      from Cons.IH [OF loop inv int_ts Cons.prems(4) this] z show ?thesis by simp
    next
      case (Some dp)
      obtain d0 p where dp: "dp = (d0, p)" by (cases dp)
      from int_t Inr Some dp have "isInteger p" by (simp add: plIntegral_def)
      then obtain x where p: "p = Fin x" and x: "of_int \<lfloor>x\<rfloor> = x" by (cases p) simp_all
      define k0 where "k0 = \<lfloor>x\<rfloor>"
      have xk: "x = of_int k0" unfolding k0_def using x by (rule sym)
      have c: "contribution h t = Inr (Some (d0, Fin (of_int k0)))"
        using Inr Some dp p xk by simp
      have size: "plSize h t = \<bar>k0\<bar>" using c by (simp add: plSize_def)
      have pl: "\<And>d. plInt h d t = (if d0 = d then k0 else 0)"
        using c by (simp add: plInt_def)
      define i where "i = bucketInt m d0"
      have ib: "\<bar>i\<bar> \<le> b" and oz: "orZero (map_of m d0) = Fin (of_int i)"
      proof -
        show "\<bar>i\<bar> \<le> b"
        proof (cases "map_of m d0")
          case None
          then show ?thesis using Cons.prems(4) by (simp add: i_def bucketInt_None)
        next
          case (Some v)
          with inv obtain k where "v = Fin (of_int k)" "\<bar>k\<bar> \<le> b" by blast
          with Some show ?thesis by (simp add: i_def bucketInt_Some)
        qed
        show "orZero (map_of m d0) = Fin (of_int i)"
        proof (cases "map_of m d0")
          case None
          then show ?thesis by (simp add: i_def bucketInt_None orZero_def)
        next
          case (Some v)
          with inv obtain k where "v = Fin (of_int k)" by blast
          with Some show ?thesis by (auto simp: i_def bucketInt_Some orZero_def)
        qed
      qed
      have "\<bar>i + k0\<bar> \<le> b + \<bar>k0\<bar>" using ib by linarith
      also have "\<dots> \<le> 2 ^ 53"
      proof -
        have "0 \<le> sum_list (map (plSize h) ts)"
          by (rule sum_list_nonneg)
            (auto simp: plSize_def split: sum.splits option.splits prod.splits jsnum.splits)
        with Cons.prems(5) size show ?thesis by simp
      qed
      finally have small: "\<bar>i + k0\<bar> \<le> 2 ^ 53" .
      have add: "js_add (orZero (map_of m d0)) p = Fin (of_int (i + k0))"
        using fl_int [OF small] by (simp add: oz p xk)
      define m1 where "m1 = setKey m d0 (Fin (of_int (i + k0)))"
      have loop: "tradeLoop h m1 ts = Inr m'"
        using Cons.prems(1) Inr Some dp add by (simp add: tradeStep_contribution m1_def)
      have m1: "map_of m1 = (map_of m)(d0 \<mapsto> Fin (of_int (i + k0)))"
        by (simp add: m1_def map_of_setKey)
      have inv1: "\<forall>d v. map_of m1 d = Some v \<longrightarrow>
          (\<exists>k. v = Fin (of_int k) \<and> \<bar>k\<bar> \<le> b + \<bar>k0\<bar>)"
      proof (intro allI impI)
        fix d v assume v: "map_of m1 d = Some v"
        show "\<exists>k. v = Fin (of_int k) \<and> \<bar>k\<bar> \<le> b + \<bar>k0\<bar>"
        proof (cases "d = d0")
          case True
          with v m1 have "v = Fin (of_int (i + k0))" by simp
          moreover have "\<bar>i + k0\<bar> \<le> b + \<bar>k0\<bar>" using ib by linarith
          ultimately show ?thesis by blast
        next
          case False
          with v m1 have "map_of m d = Some v" by simp
          with inv obtain k where "v = Fin (of_int k)" "\<bar>k\<bar> \<le> b" by blast
          then have "v = Fin (of_int k) \<and> \<bar>k\<bar> \<le> b + \<bar>k0\<bar>" by simp
          then show ?thesis by blast
        qed
      qed
      have b1: "0 \<le> b + \<bar>k0\<bar>" using Cons.prems(4) by simp
      have sum1: "b + \<bar>k0\<bar> + sum_list (map (plSize h) ts) \<le> 2 ^ 53"
        using Cons.prems(5) size by simp
      have bi: "\<And>d. bucketInt m1 d = bucketInt m d + plInt h d t"
      proof -
        fix d
        show "bucketInt m1 d = bucketInt m d + plInt h d t"
        proof (cases "d = d0")
          case True
          then show ?thesis by (simp add: bucketInt_def m1 pl i_def)
        next
          case False
          then show ?thesis by (auto simp: bucketInt_def m1 pl)
        qed
      qed
      from Cons.IH [OF loop inv1 int_ts b1 sum1]
      show ?thesis by (simp add: bi add.assoc)
    qed
  qed
qed

lemma exactPL_perm:
  assumes "mset ts = mset ts'" and "exactPL h ts"
  shows "exactPL h ts'"
proof -
  from assms(1) have s: "set ts = set ts'" by (rule mset_eq_setD)
  have "sum_list (map (plSize h) ts) = sum_mset (image_mset (plSize h) (mset ts))"
    by (metis mset_map sum_mset_sum_list)
  also have "\<dots> = sum_list (map (plSize h) ts')"
    unfolding assms(1) by (metis mset_map sum_mset_sum_list)
  finally show ?thesis using assms(2) s by (simp add: exactPL_def list_all_iff)
qed

lemma plInt_perm:
  assumes "mset ts = mset ts'"
  shows "sum_list (map (plInt h d) ts) = sum_list (map (plInt h d) ts')"
proof -
  have "sum_list (map (plInt h d) ts) = sum_mset (image_mset (plInt h d) (mset ts))"
    by (metis mset_map sum_mset_sum_list)
  also have "\<dots> = sum_list (map (plInt h d) ts')"
    unfolding assms by (metis mset_map sum_mset_sum_list)
  finally show ?thesis .
qed

lemma aggregate_exact:
  assumes "aggregate h ts = Inr m" and "exactPL h ts"
  shows "map_of m d =
     (if d \<in> set (map fst m) then Some (Fin (of_int (sum_list (map (plInt h d) ts)))) else None)"
proof (cases "map_of m d")
  case None
  then show ?thesis by (simp add: map_of_eq_None_iff)
next
  case (Some v)
  then have "d \<in> set (map fst m)"
    by (metis map_of_eq_None_iff option.distinct(1) set_map)
  moreover from assms have "\<forall>d v. map_of m d = Some v \<longrightarrow>
      v = Fin (of_int (bucketInt [] d + sum_list (map (plInt h d) ts)))"
    by (intro tradeLoop_exact [where b = 0]) (simp_all add: aggregate_def exactPL_def)
  ultimately show ?thesis using Some by (simp add: bucketInt_def)
qed

lemma contribution_finite: "contribution h t = Inr (Some (d, p)) \<Longrightarrow> isFinite p"
  by (auto simp: contribution_def split: sum.splits option.splits if_splits)

lemma js_add_not_NaN: "a \<noteq> NaN \<Longrightarrow> isFinite p \<Longrightarrow> js_add a p \<noteq> NaN"
  using fl_cases by (cases a; cases p) (auto, metis jsnum.distinct)

lemma orZero_id: "v \<noteq> NaN \<Longrightarrow> orZero (Some v) = v"
  by (auto simp: orZero_def)

lemma orZero_not_NaN: "orZero x \<noteq> NaN"
  by (auto simp: orZero_def split: option.splits)

lemma tradeLoop_fold:
  assumes "tradeLoop h m ts = Inr m'" and "\<forall>d v. map_of m d = Some v \<longrightarrow> v \<noteq> NaN"
  shows "map_of m' d =
     (if map_of m d = None \<and> dayPLs h d ts = [] then None
      else Some (foldl js_add (orZero (map_of m d)) (dayPLs h d ts)))"
  using assms
proof (induction ts arbitrary: m)
  case Nil
  then show ?case by (cases "map_of m d") (auto simp: orZero_id)
next
  case (Cons t ts)
  show ?case
  proof (cases "contribution h t")
    case (Inl e)
    with Cons.prems(1) show ?thesis by (simp add: tradeStep_contribution)
  next
    case (Inr c)
    show ?thesis
    proof (cases c)
      case None
      with Inr Cons.prems(1) have "tradeLoop h m ts = Inr m'"
        by (simp add: tradeStep_contribution)
      from Cons.IH [OF this Cons.prems(2)] Inr None show ?thesis by simp
    next
      case (Some dp)
      obtain d0 p where dp: "dp = (d0, p)" by (cases dp)
      define v1 where "v1 = js_add (orZero (map_of m d0)) p"
      define m1 where "m1 = setKey m d0 v1"
      have c: "contribution h t = Inr (Some (d0, p))" using Inr Some dp by simp
      have v1: "v1 \<noteq> NaN"
        unfolding v1_def by (intro js_add_not_NaN orZero_not_NaN contribution_finite [OF c])
      have loop: "tradeLoop h m1 ts = Inr m'"
        using Cons.prems(1) c by (simp add: tradeStep_contribution m1_def v1_def)
      have m1: "map_of m1 = (map_of m)(d0 \<mapsto> v1)" by (simp add: m1_def map_of_setKey)
      have inv1: "\<forall>d v. map_of m1 d = Some v \<longrightarrow> v \<noteq> NaN"
        using Cons.prems(2) v1 by (auto simp: m1)
      note ih = Cons.IH [OF loop inv1]
      show ?thesis
      proof (cases "d = d0")
        case True
        with ih m1 v1 c show ?thesis by (simp add: orZero_id v1_def)
      next
        case False
        with ih m1 c show ?thesis by simp
      qed
    qed
  qed
qed

lemma aggregate_fold:
  assumes "aggregate h ts = Inr m"
  shows "map_of m d =
     (if dayPLs h d ts = [] then None else Some (foldl js_add (Fin 0) (dayPLs h d ts)))"
  using tradeLoop_fold [of h "[]" ts m d] assms by (simp add: aggregate_def orZero_def)

lemma noRounding_fold:
  "noRounding acc ps \<Longrightarrow> foldl js_add (Fin acc) ps = Fin (acc + sum_list (map ratOf ps))"
  by (induction acc ps rule: noRounding.induct) (simp_all add: add.assoc)

lemma dayPLs_plRat: "sum_list (map ratOf (dayPLs h d ts)) = sum_list (map (plRat h d) ts)"
  by (induction ts) (auto simp: plRat_def split: sum.splits option.splits)

lemma dayPLs_empty_iff:
  "dayPLs h d ts = [] \<longleftrightarrow> \<not> (\<exists>t \<in> set ts. \<exists>p. contribution h t = Inr (Some (d, p)))"
  by (induction ts) (auto split: sum.splits option.splits)

lemma exactSums_day: "exactSums h ts \<Longrightarrow> noRounding 0 (dayPLs h d ts)"
proof (cases "dayPLs h d ts = []")
  case True
  then show ?thesis by simp
next
  case False
  assume e: "exactSums h ts"
  from False obtain t p where "t \<in> set ts" "contribution h t = Inr (Some (d, p))"
    by (auto simp: dayPLs_empty_iff)
  with e show ?thesis by (auto simp: exactSums_def list_all_iff)
qed

lemma plRat_perm:
  assumes "mset ts = mset ts'"
  shows "sum_list (map (plRat h d) ts) = sum_list (map (plRat h d) ts')"
proof -
  have "sum_list (map (plRat h d) ts) = sum_mset (image_mset (plRat h d) (mset ts))"
    by (metis mset_map sum_mset_sum_list)
  also have "\<dots> = sum_list (map (plRat h d) ts')"
    unfolding assms by (metis mset_map sum_mset_sum_list)
  finally show ?thesis .
qed

lemma aggregate_exactSums:
  assumes "aggregate h ts = Inr m" and "exactSums h ts"
  shows "map_of m d =
     (if dayPLs h d ts = [] then None else Some (Fin (sum_list (map (plRat h d) ts))))"
  using aggregate_fold [OF assms(1), of d] noRounding_fold [OF exactSums_day [OF assms(2), of d]]
  by (simp add: dayPLs_plRat)

text \<open>
  C7, as the code has it. Aggregating a permutation of a list of trades succeeds
  exactly when aggregating the list does, and then gives the same set of days. Each
  bucket holds the floating-point sum, from \<open>0\<close> and in the order of processing, of
  the PnLs of the trades of its day. So the two mappings are equal whenever no
  addition rounds in either order, and in particular when the PnLs are integers whose
  magnitudes sum to at most \<open>2^53\<close>.
\<close>

theorem aggregate_permutation:
  assumes "mset ts = mset ts'"
  shows "((\<exists>m. aggregate h ts = Inr m) \<longleftrightarrow> (\<exists>m'. aggregate h ts' = Inr m'))
     \<and> (\<forall>m m'. aggregate h ts = Inr m \<longrightarrow> aggregate h ts' = Inr m' \<longrightarrow>
           set (map fst m) = set (map fst m')
           \<and> (\<forall>d. map_of m d =
                 (if dayPLs h d ts = [] then None
                  else Some (foldl js_add (Fin 0) (dayPLs h d ts))))
           \<and> (exactSums h ts \<longrightarrow> exactSums h ts' \<longrightarrow> map_of m = map_of m')
           \<and> (exactPL h ts \<longrightarrow> map_of m = map_of m'))"
proof (intro conjI allI impI)
  from assms have s: "set ts = set ts'" by (rule mset_eq_setD)
  show "(\<exists>m. aggregate h ts = Inr m) \<longleftrightarrow> (\<exists>m'. aggregate h ts' = Inr m')"
    unfolding aggregate_def tradeLoop_ok_iff s ..
  fix m m'
  assume a: "aggregate h ts = Inr m" and a': "aggregate h ts' = Inr m'"
  show k: "set (map fst m) = set (map fst m')"
    using tradeLoop_keys [of h "[]" ts m] tradeLoop_keys [of h "[]" ts' m'] a a' s
    by (simp add: aggregate_def)
  show "map_of m d =
      (if dayPLs h d ts = [] then None else Some (foldl js_add (Fin 0) (dayPLs h d ts)))" for d
    by (rule aggregate_fold [OF a])
  show "map_of m = map_of m'" if e: "exactSums h ts" and e': "exactSums h ts'"
  proof
    fix d
    have "dayPLs h d ts = [] \<longleftrightarrow> dayPLs h d ts' = []" by (simp add: dayPLs_empty_iff s)
    then show "map_of m d = map_of m' d"
      unfolding aggregate_exactSums [OF a e] aggregate_exactSums [OF a' e']
        plRat_perm [OF assms, of h d] by simp
  qed
  show "map_of m = map_of m'" if e: "exactPL h ts"
  proof
    from e have e': "exactPL h ts'" by (rule exactPL_perm [OF assms])
    fix d
    show "map_of m d = map_of m' d"
      unfolding aggregate_exact [OF a e] aggregate_exact [OF a' e'] k
        plInt_perm [OF assms, of h d] ..
  qed
qed

lemma fl_0 [simp]: "fl 0 = Fin 0"
  by (simp add: fl_def)

lemma fl_1 [simp]: "fl 1 = Fin 1"
  using fl_int [of 1] by simp

lemma contribution_tradeOf_0:
  "contribution h (tradeOf 0 p) = Inr (Some (''1970-01-01'', Fin p))"
proof -
  have c: "getCloseSec h (tradeOf 0 p) = Inr (Some (Fin 0))"
    by (simp add: tradeOf_def getCloseSec_def toSecOf_def toSec_def isNullish_def)
  have pl: "getPL h (tradeOf 0 p) = Inr (Some (Fin p))"
    by (simp add: tradeOf_def getPL_def plField_def)
  show ?thesis
    by (simp add: contribution_def c pl toISOString_0 del: toISOString.simps(2))
qed

lemma contribution_tradeOf_86400:
  "contribution h (tradeOf 86400 p) = Inr (Some (''1970-01-02'', Fin p))"
proof -
  have c: "getCloseSec h (tradeOf 86400 p) = Inr (Some (Fin 86400))"
    by (simp add: tradeOf_def getCloseSec_def toSecOf_def toSec_def isNullish_def)
  have pl: "getPL h (tradeOf 86400 p) = Inr (Some (Fin p))"
    by (simp add: tradeOf_def getPL_def plField_def)
  show ?thesis
    by (simp add: contribution_def c pl fl_numeral toISOString_86400000
        del: toISOString.simps(2))
qed

lemma fl_2p53_plus_1: "fl 9007199254740993 = Fin 9007199254740992"
  by (subst fl_eval [where e = 53]) (simp_all add: pow2_def roundTiesToEven_def Let_def)

lemma fl_2p53_plus_2: "fl 9007199254740994 = Fin 9007199254740994"
  by (subst fl_eval [where e = 53]) (simp_all add: pow2_def roundTiesToEven_def Let_def)

text \<open>
  C7 as stated fails: floating-point addition is not associative. Three trades of
  the same day with PnLs \<open>2^53\<close>, \<open>1\<close>, \<open>1\<close> sum to \<open>2^53\<close> in that order
  (\<open>2^53 + 1\<close> rounds back to \<open>2^53\<close> twice) and to \<open>2^53 + 2\<close> when the large
  one comes last.
\<close>

theorem aggregate_depends_on_order:
  "mset [tradeOf 0 9007199254740992, tradeOf 0 1, tradeOf 0 1]
     = mset [tradeOf 0 1, tradeOf 0 1, tradeOf 0 9007199254740992]
   \<and> aggregate sampleHost [tradeOf 0 9007199254740992, tradeOf 0 1, tradeOf 0 1]
       = Inr [(''1970-01-01'', Fin 9007199254740992)]
   \<and> aggregate sampleHost [tradeOf 0 1, tradeOf 0 1, tradeOf 0 9007199254740992]
       = Inr [(''1970-01-01'', Fin 9007199254740994)]"
  by (simp add: aggregate_def tradeStep_contribution contribution_tradeOf_0 orZero_def
      fl_numeral fl_2p53_plus_1 fl_2p53_plus_2)

lemma fl_half: "fl (1 / 2) = Fin (1 / 2)"
  by (subst fl_eval [where e = "- 1"]) (simp_all add: pow2_def roundTiesToEven_def Let_def)

lemma fl_quarter: "fl (1 / 4) = Fin (1 / 4)"
  by (subst fl_eval [where e = "- 2"]) (simp_all add: pow2_def roundTiesToEven_def Let_def)

lemma fl_three_quarters: "fl (3 / 4) = Fin (3 / 4)"
  by (subst fl_eval [where e = "- 1"]) (simp_all add: pow2_def roundTiesToEven_def Let_def)

theorem aggregate_permutation_witness:
  "mset [tradeOf 0 (1 / 2), tradeOf 0 (1 / 4)] = mset [tradeOf 0 (1 / 4), tradeOf 0 (1 / 2)]
   \<and> exactSums sampleHost [tradeOf 0 (1 / 2), tradeOf 0 (1 / 4)]
   \<and> exactSums sampleHost [tradeOf 0 (1 / 4), tradeOf 0 (1 / 2)]
   \<and> aggregate sampleHost [tradeOf 0 (1 / 2), tradeOf 0 (1 / 4)]
       = Inr [(''1970-01-01'', Fin (3 / 4))]
   \<and> aggregate sampleHost [tradeOf 0 (1 / 4), tradeOf 0 (1 / 2)]
       = Inr [(''1970-01-01'', Fin (3 / 4))]
   \<and> map_of [(''1970-01-01'', Fin (3 / 4))] ''1970-01-01''
       = Some (foldl js_add (Fin 0)
           (dayPLs sampleHost ''1970-01-01'' [tradeOf 0 (1 / 2), tradeOf 0 (1 / 4)]))
   \<and> mset [tradeOf 0 3, tradeOf 86400 4] = mset [tradeOf 86400 4, tradeOf 0 3]
   \<and> exactPL sampleHost [tradeOf 0 3, tradeOf 86400 4]
   \<and> aggregate sampleHost [tradeOf 0 3, tradeOf 86400 4]
       = Inr [(''1970-01-01'', Fin 3), (''1970-01-02'', Fin 4)]
   \<and> aggregate sampleHost [tradeOf 86400 4, tradeOf 0 3]
       = Inr [(''1970-01-02'', Fin 4), (''1970-01-01'', Fin 3)]
   \<and> map_of [(''1970-01-01'', Fin 3), (''1970-01-02'', Fin 4)]
       = map_of [(''1970-01-02'', Fin 4), (''1970-01-01'', Fin 3)]"
proof -
  let ?qs = "[tradeOf 0 (1 / 2), tradeOf 0 (1 / 4)]"
  let ?qs' = "[tradeOf 0 (1 / 4), tradeOf 0 (1 / 2)]"
  let ?ts = "[tradeOf 0 3, tradeOf 86400 4]"
  let ?ts' = "[tradeOf 86400 4, tradeOf 0 3]"
  have q: "mset ?qs = mset ?qs'" by simp
  have x: "exactSums sampleHost ?qs"
    by (simp add: exactSums_def contribution_tradeOf_0 fl_half fl_three_quarters)
  have x': "exactSums sampleHost ?qs'"
    by (simp add: exactSums_def contribution_tradeOf_0 fl_quarter fl_three_quarters)
  have b: "aggregate sampleHost ?qs = Inr [(''1970-01-01'', Fin (3 / 4))]"
    by (simp add: aggregate_def tradeStep_contribution contribution_tradeOf_0 orZero_def
        fl_half fl_three_quarters)
  have b': "aggregate sampleHost ?qs' = Inr [(''1970-01-01'', Fin (3 / 4))]"
    by (simp add: aggregate_def tradeStep_contribution contribution_tradeOf_0 orZero_def
        fl_quarter fl_three_quarters)
  note main = aggregate_permutation [OF q, of sampleHost, THEN conjunct2, rule_format, OF b b']
  from main [THEN conjunct2, THEN conjunct1, rule_format, of "''1970-01-01''"]
  have f: "map_of [(''1970-01-01'', Fin (3 / 4))] ''1970-01-01''
       = Some (foldl js_add (Fin 0) (dayPLs sampleHost ''1970-01-01'' ?qs))"
    by (simp add: contribution_tradeOf_0)
  have p: "mset ?ts = mset ?ts'" by simp
  have e: "exactPL sampleHost ?ts"
    by (simp add: exactPL_def plIntegral_def plSize_def contribution_tradeOf_0
        contribution_tradeOf_86400)
  have a: "aggregate sampleHost ?ts = Inr [(''1970-01-01'', Fin 3), (''1970-01-02'', Fin 4)]"
    by (simp add: aggregate_def tradeStep_contribution contribution_tradeOf_0
        contribution_tradeOf_86400 orZero_def fl_numeral)
  have a': "aggregate sampleHost ?ts' = Inr [(''1970-01-02'', Fin 4), (''1970-01-01'', Fin 3)]"
    by (simp add: aggregate_def tradeStep_contribution contribution_tradeOf_0
        contribution_tradeOf_86400 orZero_def fl_numeral)
  from aggregate_permutation [OF p, of sampleHost, THEN conjunct2, rule_format, OF a a',
      THEN conjunct2, THEN conjunct2, THEN conjunct2, rule_format, OF e]
  have g: "map_of [(''1970-01-01'', Fin 3), (''1970-01-02'', Fin 4)]
       = map_of [(''1970-01-02'', Fin 4), (''1970-01-01'', Fin 3)]" .
  from q x x' b b' f p e a a' g show ?thesis by (intro conjI)
qed

section \<open>What a trade adds to the buckets\<close>








end
